theory Spec2Isabelle
  imports
    Complex_Main
    "HOL-Library.AList"
    "HOL-Library.Char_ord"
    "HOL-Library.List_Lexorder"
    "HOL-Library.Multiset"
begin

section \<open>Weekday masters of market\_app: the embedding\<close>

text \<open>
  The development follows \<^verbatim>\<open>app/advanced\<close>: \<^verbatim>\<open>adv_io.py\<close>, \<^verbatim>\<open>adv_ledger.py\<close>,
  \<^verbatim>\<open>adv_config.py\<close>, \<^verbatim>\<open>adv_aggregator.py\<close>, \<^verbatim>\<open>weekday_master_bulk.py\<close> and
  \<^verbatim>\<open>market_session.py\<close>.

  Conventions of the embedding.
  \<^item> A Python \<^verbatim>\<open>float\<close> is a rational number: the arithmetic of the merge is exact, IEEE
    rounding, infinities and NaN are outside the model. The one rounding the program
    itself asks for, the \<^verbatim>\<open>f"{x:.6f}"\<close> of the writers, is modelled (round half to even
    at the sixth decimal).
  \<^item> A Python \<^verbatim>\<open>dict\<close> is an association list in insertion order with distinct keys;
    \<open>map_of\<close> reads it and \<open>AList.update\<close> is the assignment \<^verbatim>\<open>d[k] = v\<close>.
  \<^item> A CSV file is kept as the list of its records with typed cells: a numeric cell
    holds the number its text denotes. The text itself is given by \<open>csv_lines\<close>.
  \<^item> The file system is explicit state. The only call that can fail is \<^verbatim>\<open>os.replace\<close>;
    its outcomes are scheduled in the state, so that every exception path of the writers
    is a branch of the model. A function that can raise returns the error on the left of
    a sum, together with the state it leaves behind.
  \<^item> The clock (\<^verbatim>\<open>datetime.now\<close>) is an argument.
\<close>

subsection \<open>Six-decimal formatting\<close>

text \<open>\<^verbatim>\<open>f"{x:.6f}"\<close> rounds the exact value half to even at the sixth decimal.\<close>

definition round_half_even :: "rat \<Rightarrow> int" where
  "round_half_even x =
     (let f = \<lfloor>x\<rfloor>; d = x - of_int f
      in if d < 1 / 2 then f
         else if 1 / 2 < d then f + 1
         else if even f then f else f + 1)"

text \<open>The number of millionths that \<^verbatim>\<open>f"{x:.6f}"\<close> prints, and the value read back from it.\<close>

definition micros :: "rat \<Rightarrow> int" where
  "micros x = round_half_even (x * 1000000)"

definition q6 :: "rat \<Rightarrow> rat" where
  "q6 x = of_int (micros x) / 1000000"

subsection \<open>The text of numbers\<close>

text \<open>Decimal digits; \<^verbatim>\<open>f"{n:02d}"\<close> for a number below 100.\<close>

definition digit_char :: "nat \<Rightarrow> char" where
  "digit_char n = char_of (48 + n)"

definition two_digits :: "nat \<Rightarrow> string" where
  "two_digits n = [digit_char (n div 10), digit_char (n mod 10)]"

definition is_digit :: "char \<Rightarrow> bool" where
  "is_digit c \<longleftrightarrow> CHR ''0'' \<le> c \<and> c \<le> CHR ''9''"

text \<open>
  \<^verbatim>\<open>str\<close> of an \<^verbatim>\<open>int\<close>, as the \<^verbatim>\<open>csv\<close> module writes a number that is not a string;
  \<open>decimal\<close> is for a number that is not negative, \<open>zpad\<close> pads it with zeros to a width
  (\<^verbatim>\<open>"%04d"\<close>).
\<close>

function decimal :: "int \<Rightarrow> string" where
  "decimal n = (if n < 10 then [digit_char (nat n)]
                else decimal (n div 10) @ [digit_char (nat (n mod 10))])"
  by pat_completeness auto

termination
  by (relation "measure nat") auto

definition str_int :: "int \<Rightarrow> string" where
  "str_int n = (if n < 0 then ''-'' @ decimal (- n) else decimal n)"

definition zpad :: "nat \<Rightarrow> int \<Rightarrow> string" where
  "zpad w n = replicate (w - length (decimal n)) CHR ''0'' @ decimal n"

text \<open>
  \<^verbatim>\<open>f"{x:.6f}"\<close>: the sign of \<open>x\<close>, the integer part, the point and six digits of the
  rounded number of millionths.
\<close>

definition fmt6 :: "rat \<Rightarrow> string" where
  "fmt6 x =
     (let m = \<bar>micros x\<bar>
      in (if x < 0 then ''-'' else []) @ decimal (m div 1000000) @ ''.'' @ zpad 6 (m mod 1000000))"

subsection \<open>adv\_io.py: rows and files\<close>

record WeekdayRow =
  time_bucket :: string
  n_tot :: int
  sum_tot :: rat
  avg_tot :: rat
  min_tot :: rat
  max_tot :: rat
  last_updated :: string

type_synonym 'v dict = "(string \<times> 'v) list"

definition WEEKDAY_MASTER_HEADER :: "string list" where
  "WEEKDAY_MASTER_HEADER =
     [''time_bucket'', ''n_tot'', ''sum_tot'', ''avg_tot'', ''min_tot'', ''max_tot'', ''last_updated'']"

text \<open>\<^verbatim>\<open>str.strip()\<close> on ASCII white space.\<close>

definition is_space :: "char \<Rightarrow> bool" where
  "is_space c = (c \<in> set [CHR '' '', CHR 0x09, CHR 0x0A, CHR 0x0B, CHR 0x0C, CHR 0x0D])"

definition strip :: "string \<Rightarrow> string" where
  "strip s = rev (dropWhile is_space (rev (dropWhile is_space s)))"

text \<open>
  A path is either a name, or the temporary file that \<^verbatim>\<open>tempfile.mkstemp\<close> creates:
  \<open>Temp d k\<close> is the \<open>k\<close>-th temporary file made in directory \<open>d\<close>, a name that no other
  file has.
\<close>

datatype fpath = Named string | Temp string nat

text \<open>
  The exceptions of the file operations: \<^verbatim>\<open>PermissionError\<close>, \<^verbatim>\<open>FileNotFoundError\<close>, and
  \<open>OSError\<close> for every other subclass of \<^verbatim>\<open>OSError\<close>.
\<close>

datatype io_error = PermissionError | FileNotFoundError | OSError

datatype replace_outcome = ReplaceOk | ReplaceDenied | ReplaceBroken

text \<open>
  Opening a file for writing and writing it: all goes well, \<^verbatim>\<open>open\<close> raises and the
  file stays as it is, or a write raises after the file was truncated and so many
  records reached it.
\<close>

datatype write_outcome = WriteOk | OpenFails io_error | WriteFails io_error nat

datatype io_event =
    EvMakedirs string "io_error option"
  | EvMkstemp fpath
  | EvMkstempFailed io_error
  | EvWrite fpath
  | EvWriteFailed fpath io_error
  | EvReplace fpath fpath "io_error option"
  | EvSleep rat
  | EvRemove fpath
  | EvRemoveFailed fpath

text \<open>
  The file system is the state. Every operation that can raise draws its outcome
  from a schedule of its own in the state, the head first; with nothing scheduled the
  operation succeeds. \<open>io_log\<close> records the operations in their order.
\<close>

record adv_fs =
  csv_files :: "fpath \<rightharpoonup> WeekdayRow list"
  ledger_files :: "string \<rightharpoonup> string list"
  replace_faults :: "replace_outcome list"
  tmp_seq :: nat
  io_log :: "io_event list"
  stdout :: "string list"
  makedirs_faults :: "io_error option list"
  mkstemp_faults :: "io_error option list"
  write_faults :: "write_outcome list"
  remove_faults :: "io_error option list"

definition next_fault :: "io_error option list \<Rightarrow> io_error option" where
  "next_fault sch = (case sch of [] \<Rightarrow> None | x # _ \<Rightarrow> x)"

text \<open>
  \<^verbatim>\<open>read_weekday_master\<close>: a missing file is the empty dict; a later record of the same
  time bucket overwrites an earlier one; the bucket and the stamp are stripped.
\<close>

definition read_row :: "WeekdayRow \<Rightarrow> WeekdayRow dict \<Rightarrow> WeekdayRow dict" where
  "read_row row out =
     (let tb = strip (time_bucket row)
      in AList.update tb (row\<lparr>time_bucket := tb, last_updated := strip (last_updated row)\<rparr>) out)"

definition read_weekday_master :: "adv_fs \<Rightarrow> string \<Rightarrow> WeekdayRow dict" where
  "read_weekday_master fs path =
     (case csv_files fs (Named path) of
        None \<Rightarrow> []
      | Some recs \<Rightarrow> fold read_row recs [])"

text \<open>The record that \<^verbatim>\<open>writer.writerow\<close> leaves in the file for a row.\<close>

definition persist :: "WeekdayRow \<Rightarrow> WeekdayRow" where
  "persist r = r\<lparr>sum_tot := q6 (sum_tot r), avg_tot := q6 (avg_tot r),
                 min_tot := q6 (min_tot r), max_tot := q6 (max_tot r)\<rparr>"

text \<open>
  The inner \<^verbatim>\<open>write_to_file\<close>: after the header, one record per key, in ascending
  order of the keys (\<^verbatim>\<open>for tb in sorted(rows.keys())\<close>). It raises when \<^verbatim>\<open>open\<close> or a
  write raises.
\<close>

definition file_rows :: "WeekdayRow dict \<Rightarrow> WeekdayRow list" where
  "file_rows rows = map (persist \<circ> snd) (sort_key fst rows)"

definition write_to_file :: "adv_fs \<Rightarrow> fpath \<Rightarrow> WeekdayRow dict \<Rightarrow> (io_error + unit) \<times> adv_fs" where
  "write_to_file fs fp rows =
     (let fs1 = fs\<lparr>write_faults := tl (write_faults fs)\<rparr>
      in case (case write_faults fs of [] \<Rightarrow> WriteOk | x # _ \<Rightarrow> x) of
           WriteOk \<Rightarrow>
             (Inr (), fs1\<lparr>csv_files := (csv_files fs1)(fp \<mapsto> file_rows rows),
                          io_log := io_log fs1 @ [EvWrite fp]\<rparr>)
         | OpenFails e \<Rightarrow> (Inl e, fs1\<lparr>io_log := io_log fs1 @ [EvWriteFailed fp e]\<rparr>)
         | WriteFails e k \<Rightarrow>
             (Inl e, fs1\<lparr>csv_files := (csv_files fs1)(fp \<mapsto> take k (file_rows rows)),
                          io_log := io_log fs1 @ [EvWriteFailed fp e]\<rparr>))"

text \<open>\<^verbatim>\<open>os.path.dirname\<close> (POSIX).\<close>

definition dirname :: "string \<Rightarrow> string" where
  "dirname p =
     (let head = rev (dropWhile (\<lambda>c. c \<noteq> CHR ''/'') (rev p))
      in if head \<noteq> [] \<and> \<not> list_all (\<lambda>c. c = CHR ''/'') head
         then rev (dropWhile (\<lambda>c. c = CHR ''/'') (rev head))
         else head)"

text \<open>
  \<^verbatim>\<open>ensure_dir\<close>: \<^verbatim>\<open>os.makedirs(os.path.dirname(path), exist_ok=True)\<close>. For a path
  without a directory part the argument is the empty string, and \<^verbatim>\<open>os.makedirs\<close> raises
  \<^verbatim>\<open>FileNotFoundError\<close>.
\<close>

definition ensure_dir :: "adv_fs \<Rightarrow> string \<Rightarrow> (io_error + unit) \<times> adv_fs" where
  "ensure_dir fs path =
     (let d = dirname path
      in if d = [] then (Inl FileNotFoundError, fs\<lparr>io_log := io_log fs @ [EvMakedirs d (Some FileNotFoundError)]\<rparr>)
         else
           let outcome = next_fault (makedirs_faults fs);
               fs1 = fs\<lparr>makedirs_faults := tl (makedirs_faults fs),
                        io_log := io_log fs @ [EvMakedirs d outcome]\<rparr>
           in case outcome of None \<Rightarrow> (Inr (), fs1) | Some e \<Rightarrow> (Inl e, fs1))"

text \<open>\<^verbatim>\<open>tempfile.mkstemp(prefix=".tmp_", dir=d, suffix=".csv")\<close> with \<^verbatim>\<open>os.close(fd)\<close>.\<close>

definition mkstemp :: "adv_fs \<Rightarrow> string \<Rightarrow> (io_error + fpath) \<times> adv_fs" where
  "mkstemp fs d =
     (let fs1 = fs\<lparr>mkstemp_faults := tl (mkstemp_faults fs)\<rparr>
      in case next_fault (mkstemp_faults fs) of
           Some e \<Rightarrow> (Inl e, fs1\<lparr>io_log := io_log fs1 @ [EvMkstempFailed e]\<rparr>)
         | None \<Rightarrow>
             let tmp = Temp d (tmp_seq fs)
             in (Inr tmp, fs1\<lparr>csv_files := (csv_files fs1)(tmp \<mapsto> []),
                             tmp_seq := Suc (tmp_seq fs),
                             io_log := io_log fs1 @ [EvMkstemp tmp]\<rparr>))"

text \<open>
  \<^verbatim>\<open>os.replace(src, dst)\<close>: the next scheduled outcome decides; with nothing scheduled
  the rename succeeds.
\<close>

definition os_replace :: "adv_fs \<Rightarrow> fpath \<Rightarrow> fpath \<Rightarrow> (io_error + unit) \<times> adv_fs" where
  "os_replace fs src dst =
     (let outcome = (case replace_faults fs of [] \<Rightarrow> ReplaceOk | x # _ \<Rightarrow> x);
          fs1 = fs\<lparr>replace_faults := tl (replace_faults fs)\<rparr>
      in case outcome of
           ReplaceOk \<Rightarrow>
             (Inr (), fs1\<lparr>csv_files := ((csv_files fs1)(dst := csv_files fs1 src))(src := None),
                          io_log := io_log fs1 @ [EvReplace src dst None]\<rparr>)
         | ReplaceDenied \<Rightarrow>
             (Inl PermissionError, fs1\<lparr>io_log := io_log fs1 @ [EvReplace src dst (Some PermissionError)]\<rparr>)
         | ReplaceBroken \<Rightarrow>
             (Inl OSError, fs1\<lparr>io_log := io_log fs1 @ [EvReplace src dst (Some OSError)]\<rparr>))"

definition sleep :: "adv_fs \<Rightarrow> rat \<Rightarrow> adv_fs" where
  "sleep fs secs = fs\<lparr>io_log := io_log fs @ [EvSleep secs]\<rparr>"

datatype replace_result = Replaced | Exhausted | Failed io_error

text \<open>
  The loop \<^verbatim>\<open>for attempt in range(5)\<close> of \<^verbatim>\<open>write_weekday_master\<close>, over the attempts
  that are left: only \<^verbatim>\<open>PermissionError\<close> is caught.
\<close>

fun replace_loop :: "adv_fs \<Rightarrow> fpath \<Rightarrow> fpath \<Rightarrow> nat list \<Rightarrow> replace_result \<times> adv_fs" where
  "replace_loop fs tmp dst [] = (Exhausted, fs)"
| "replace_loop fs tmp dst (attempt # rest) =
     (case os_replace fs tmp dst of
        (Inr _, fs1) \<Rightarrow> (Replaced, fs1)
      | (Inl PermissionError, fs1) \<Rightarrow>
          replace_loop (sleep fs1 (2 / 10 + 2 / 10 * of_nat attempt)) tmp dst rest
      | (Inl e, fs1) \<Rightarrow> (Failed e, fs1))"

text \<open>
  The \<^verbatim>\<open>finally\<close> clause: if the temporary file is still there, \<^verbatim>\<open>os.remove\<close> it; an
  exception of \<^verbatim>\<open>os.remove\<close> is swallowed and the file stays.
\<close>

definition remove_tmp :: "adv_fs \<Rightarrow> fpath \<Rightarrow> adv_fs" where
  "remove_tmp fs tmp =
     (if csv_files fs tmp = None then fs
      else
        let fs1 = fs\<lparr>remove_faults := tl (remove_faults fs)\<rparr>
        in case next_fault (remove_faults fs) of
             None \<Rightarrow> fs1\<lparr>csv_files := (csv_files fs1)(tmp := None), io_log := io_log fs1 @ [EvRemove tmp]\<rparr>
           | Some e \<Rightarrow> fs1\<lparr>io_log := io_log fs1 @ [EvRemoveFailed tmp]\<rparr>)"

text \<open>
  The body of the \<^verbatim>\<open>try\<close> statement of \<^verbatim>\<open>write_weekday_master\<close>: the write of the
  temporary file, the renames and, after five denials, the direct write, which is under
  no handler.
\<close>

definition write_via_tmp :: "adv_fs \<Rightarrow> fpath \<Rightarrow> string \<Rightarrow> WeekdayRow dict \<Rightarrow> (io_error + unit) \<times> adv_fs" where
  "write_via_tmp fs tmp path rows =
     (case write_to_file fs tmp rows of
        (Inl e, fs2) \<Rightarrow> (Inl e, fs2)
      | (Inr _, fs2) \<Rightarrow>
          (case replace_loop fs2 tmp (Named path) [0..<5] of
             (Replaced, fs3) \<Rightarrow> (Inr (), fs3)
           | (Exhausted, fs3) \<Rightarrow> write_to_file fs3 (Named path) rows
           | (Failed e, fs3) \<Rightarrow> (Inl e, fs3)))"

definition write_weekday_master ::
  "adv_fs \<Rightarrow> string \<Rightarrow> WeekdayRow dict \<Rightarrow> bool \<Rightarrow> (io_error + unit) \<times> adv_fs" where
  "write_weekday_master fs path rows atomic =
     (case ensure_dir fs path of
        (Inl e, fs0) \<Rightarrow> (Inl e, fs0)
      | (Inr _, fs0) \<Rightarrow>
          if \<not> atomic then write_to_file fs0 (Named path) rows
          else
            case mkstemp fs0 (dirname path) of
              (Inl e, fs1) \<Rightarrow> (Inl e, fs1)
            | (Inr tmp, fs1) \<Rightarrow>
                (case write_via_tmp fs1 tmp path rows of
                   (r, fs4) \<Rightarrow> (r, remove_tmp fs4 tmp)))"

subsection \<open>adv\_aggregator.py: the merge\<close>

text \<open>
  The statistics of \<^verbatim>\<open>_apply_weekday_update\<close> and of the loop body of
  \<^verbatim>\<open>aggregate_day_for_key\<close>, which repeat the same statements; \<open>now\<close> is
  \<^verbatim>\<open>to_utc_iso(datetime.now(utc))\<close>.
\<close>

definition merged_row :: "WeekdayRow option \<Rightarrow> string \<Rightarrow> rat \<Rightarrow> string \<Rightarrow> WeekdayRow" where
  "merged_row prev tb tot now =
     (let (n, s, mn, mx) =
            (case prev of
               Some p \<Rightarrow> (n_tot p + 1, sum_tot p + tot, min (min_tot p) tot, max (max_tot p) tot)
             | None \<Rightarrow> (1, tot, tot, tot));
          avg = (if n > 0 then s / of_int n else 0)
      in \<lparr>time_bucket = tb, n_tot = n, sum_tot = s, avg_tot = avg,
          min_tot = mn, max_tot = mx, last_updated = now\<rparr>)"

definition apply_weekday_update ::
  "adv_fs \<Rightarrow> string \<Rightarrow> string \<Rightarrow> rat \<Rightarrow> bool \<Rightarrow> string \<Rightarrow> (io_error + int \<times> WeekdayRow) \<times> adv_fs" where
  "apply_weekday_update fs path tb tot atomic now =
     (let existing = read_weekday_master fs path;
          updated = merged_row (map_of existing tb) tb tot now;
          existing' = AList.update tb updated existing
      in case write_weekday_master fs path existing' atomic of
           (Inl e, fs') \<Rightarrow> (Inl e, fs')
         | (Inr _, fs') \<Rightarrow> (Inr (n_tot updated, updated), fs'))"

subsection \<open>adv\_config.py\<close>

text \<open>
  The fields of \<^verbatim>\<open>AdvConfig\<close> that the aggregator reads. The session window is kept
  as parsed by \<^verbatim>\<open>_parse_hhmm\<close>. \<^verbatim>\<open>WEEKDAY_MASTER_PATH\<close> is the default template,
  \<^verbatim>\<open>{ADV_ROOT}/weekday_masters/{index}/{expiry_code}/{strike_offset}/{weekday}.csv\<close>,
  applied by \<open>weekday_master_path\<close>.
\<close>

record AdvConfig =
  ADV_ROOT :: string
  SESSION_START_HHMM :: "nat \<times> nat"
  SESSION_END_HHMM :: "nat \<times> nat"
  ATOMIC_CSV_WRITES :: bool
  ENABLE_STREAMING :: bool

definition WEEKDAY_CODE :: "string list" where
  "WEEKDAY_CODE = [''mon'', ''tue'', ''wed'', ''thu'', ''fri'', ''sat'', ''sun'']"

definition BASE_OFFSETS :: "string list" where
  "BASE_OFFSETS = [''atm_m2'', ''atm_m1'', ''atm'', ''atm_p1'', ''atm_p2'']"

definition PAIR_OFFSETS :: "string list" where
  "PAIR_OFFSETS = [''atm_p1m1'', ''atm_p2m2'']"

definition weekday_master_path :: "AdvConfig \<Rightarrow> string \<Rightarrow> string \<Rightarrow> string \<Rightarrow> string \<Rightarrow> string" where
  "weekday_master_path config index expiry_code strike_offset weekday =
     ADV_ROOT config @ ''/weekday_masters/'' @ index @ ''/'' @ expiry_code @ ''/''
       @ strike_offset @ ''/'' @ weekday @ ''.csv''"

subsection \<open>Calendar dates\<close>

text \<open>
  \<^verbatim>\<open>datetime.date\<close> with its \<^verbatim>\<open>weekday()\<close>, as the standard library computes it from
  the proleptic Gregorian ordinal. A date is a valid year, month and day.
\<close>

record date =
  year :: int
  month :: int
  day :: int

definition is_leap :: "int \<Rightarrow> bool" where
  "is_leap y \<longleftrightarrow> y mod 4 = 0 \<and> (y mod 100 \<noteq> 0 \<or> y mod 400 = 0)"

definition DAYS_IN_MONTH :: "int list" where
  "DAYS_IN_MONTH = [31, 28, 31, 30, 31, 30, 31, 31, 30, 31, 30, 31]"

definition days_before_year :: "int \<Rightarrow> int" where
  "days_before_year y = (let y1 = y - 1 in y1 * 365 + y1 div 4 - y1 div 100 + y1 div 400)"

definition days_before_month :: "int \<Rightarrow> int \<Rightarrow> int" where
  "days_before_month y m =
     sum_list (take (nat (m - 1)) DAYS_IN_MONTH) + (if m > 2 \<and> is_leap y then 1 else 0)"

definition toordinal :: "date \<Rightarrow> int" where
  "toordinal d = days_before_year (year d) + days_before_month (year d) (month d) + day d"

definition weekday :: "date \<Rightarrow> int" where
  "weekday d = (toordinal d + 6) mod 7"

definition weekday_code_from_date :: "date \<Rightarrow> string" where
  "weekday_code_from_date d = WEEKDAY_CODE ! nat (weekday d)"

text \<open>\<^verbatim>\<open>date.isoformat()\<close>: \<^verbatim>\<open>"%04d-%02d-%02d"\<close>.\<close>

definition isoformat :: "date \<Rightarrow> string" where
  "isoformat d = zpad 4 (year d) @ ''-'' @ zpad 2 (month d) @ ''-'' @ zpad 2 (day d)"

subsection \<open>Exceptions\<close>

text \<open>
  The exceptions that leave the functions of the two reconcilers: those of the file
  operations, \<^verbatim>\<open>ValueError\<close>, \<^verbatim>\<open>ZeroDivisionError\<close>, \<^verbatim>\<open>AttributeError\<close>, and \<open>Other\<close> for
  what a library outside the repository raises.
\<close>

datatype exn = IOError io_error | ValueError | ZeroDivisionError | AttributeError | Other string

subsection \<open>adv\_aggregator.py: per-minute totals and the derived pairs\<close>

text \<open>
  A totals dict has the keys \<open>(expiry_code, strike_offset, time_bucket)\<close>. The daily
  split files are an input: \<open>src index exp off\<close> is what \<^verbatim>\<open>_read_split_csv_totals\<close>
  returns for the file of that index, expiry bucket and offset on the day of the pass,
  the empty dict when the file is missing.
\<close>

type_synonym totals = "((string \<times> string \<times> string) \<times> rat) list"

type_synonym split_source = "string \<Rightarrow> string \<Rightarrow> string \<Rightarrow> (string \<times> rat) list"

definition build_totals_split_for_index_day ::
  "split_source \<Rightarrow> string \<Rightarrow> string list \<Rightarrow> string list \<Rightarrow> totals" where
  "build_totals_split_for_index_day src index expiry_codes offsets =
     fold (\<lambda>expc result.
        fold (\<lambda>off result.
           let per_min = src index expc off
           in if per_min = [] then result
              else fold (\<lambda>(tb, tot) result. AList.update (expc, off, tb) tot result) per_min result)
          offsets result)
       expiry_codes []"

text \<open>
  \<^verbatim>\<open>_apply_pairs_from_base\<close>: the first loop files the totals under \<open>(exp, tb)\<close> by
  offset (a \<^verbatim>\<open>defaultdict(dict)\<close>), the second emits the two averages where both
  legs are present.
\<close>

definition by_exp_tb ::
  "totals \<Rightarrow> ((string \<times> string) \<times> (string \<times> rat) list) list" where
  "by_exp_tb base =
     fold (\<lambda>((expc, off, tb), tot) acc.
        AList.update (expc, tb)
          (AList.update off tot (case map_of acc (expc, tb) of None \<Rightarrow> [] | Some vals \<Rightarrow> vals))
          acc)
       base []"

definition pair_step ::
  "(string \<times> string) \<times> (string \<times> rat) list \<Rightarrow> totals \<Rightarrow> totals" where
  "pair_step = (\<lambda>((expc, tb), vals) out.
     let out1 = (case (map_of vals ''atm_p1'', map_of vals ''atm_m1'') of
                   (Some p, Some m) \<Rightarrow> AList.update (expc, ''atm_p1m1'', tb) ((p + m) / 2) out
                 | _ \<Rightarrow> out)
     in (case (map_of vals ''atm_p2'', map_of vals ''atm_m2'') of
           (Some p, Some m) \<Rightarrow> AList.update (expc, ''atm_p2m2'', tb) ((p + m) / 2) out1
         | _ \<Rightarrow> out1))"

definition apply_pairs_from_base :: "totals \<Rightarrow> totals" where
  "apply_pairs_from_base base = fold pair_step (by_exp_tb base) []"

text \<open>
  The statement \<^verbatim>\<open>if not pairs_from_files: pairs_from_files = _apply_pairs_from_base(base)\<close>
  of \<^verbatim>\<open>stream_update_for_latest_minute\<close> and \<^verbatim>\<open>aggregate_eod_paired\<close>.
\<close>

definition select_pairs :: "totals \<Rightarrow> totals \<Rightarrow> totals" where
  "select_pairs pairs_from_files base =
     (if pairs_from_files = [] then apply_pairs_from_base base else pairs_from_files)"

subsection \<open>adv\_aggregator.py: the streaming update\<close>

text \<open>
  The two loops of \<^verbatim>\<open>stream_update_for_latest_minute\<close> over the items of a totals
  dict, with the running count \<open>updated\<close>. An exception of \<^verbatim>\<open>_apply_weekday_update\<close>
  leaves the function. The date is the parsed \<^verbatim>\<open>date_str\<close>; the buckets are of the form
  \<^verbatim>\<open>HH:MM\<close>, so \<^verbatim>\<open>strptime\<close> yields that date. The diagnostic counters and prints are
  left out.
\<close>

definition trading_weekdays :: "string list" where
  "trading_weekdays = [''mon'', ''tue'', ''wed'', ''thu'', ''fri'']"

fun base_updates ::
  "AdvConfig \<Rightarrow> date \<Rightarrow> string \<Rightarrow> string \<Rightarrow> totals \<Rightarrow> adv_fs \<Rightarrow> nat \<Rightarrow> (io_error + nat) \<times> adv_fs" where
  "base_updates config d index now [] fs updated = (Inr updated, fs)"
| "base_updates config d index now (((expc, off, tb), tot) # rest) fs updated =
     (let wcode = weekday_code_from_date d
      in if wcode \<notin> set trading_weekdays then base_updates config d index now rest fs updated
         else
           case apply_weekday_update fs (weekday_master_path config index expc off wcode) tb tot
                  (ATOMIC_CSV_WRITES config) now of
             (Inl e, fs') \<Rightarrow> (Inl e, fs')
           | (Inr _, fs') \<Rightarrow> base_updates config d index now rest fs' (updated + 1))"

fun pair_updates ::
  "AdvConfig \<Rightarrow> date \<Rightarrow> string \<Rightarrow> string \<Rightarrow> totals \<Rightarrow> adv_fs \<Rightarrow> nat \<Rightarrow> (io_error + nat) \<times> adv_fs" where
  "pair_updates config d index now [] fs updated = (Inr updated, fs)"
| "pair_updates config d index now (((expc, poff, tb), tot) # rest) fs updated =
     (let wcode = weekday_code_from_date d
      in case apply_weekday_update fs (weekday_master_path config index expc poff wcode) tb tot
                (ATOMIC_CSV_WRITES config) now of
           (Inl e, fs') \<Rightarrow> (Inl e, fs')
         | (Inr _, fs') \<Rightarrow> pair_updates config d index now rest fs' (updated + 1))"

text \<open>The body of the loop \<^verbatim>\<open>for index in indices\<close>.\<close>

definition stream_index ::
  "AdvConfig \<Rightarrow> split_source \<Rightarrow> date \<Rightarrow> string list \<Rightarrow> string \<Rightarrow> string \<Rightarrow> adv_fs \<Rightarrow> nat
     \<Rightarrow> (io_error + nat) \<times> adv_fs" where
  "stream_index config src d expiry_codes now index fs updated =
     (let base = build_totals_split_for_index_day src index expiry_codes BASE_OFFSETS;
          pairs_from_files = build_totals_split_for_index_day src index expiry_codes PAIR_OFFSETS;
          pairs = select_pairs pairs_from_files base
      in case base_updates config d index now base fs updated of
           (Inl e, fs') \<Rightarrow> (Inl e, fs')
         | (Inr updated', fs') \<Rightarrow> pair_updates config d index now pairs fs' updated')"

fun stream_indices ::
  "AdvConfig \<Rightarrow> split_source \<Rightarrow> date \<Rightarrow> string list \<Rightarrow> string \<Rightarrow> string list \<Rightarrow> adv_fs \<Rightarrow> nat
     \<Rightarrow> (io_error + nat) \<times> adv_fs" where
  "stream_indices config src d expiry_codes now [] fs updated = (Inr updated, fs)"
| "stream_indices config src d expiry_codes now (index # rest) fs updated =
     (case stream_index config src d expiry_codes now index fs updated of
        (Inl e, fs') \<Rightarrow> (Inl e, fs')
      | (Inr updated', fs') \<Rightarrow> stream_indices config src d expiry_codes now rest fs' updated')"

definition stream_update_for_latest_minute ::
  "AdvConfig \<Rightarrow> split_source \<Rightarrow> date \<Rightarrow> string list \<Rightarrow> string list \<Rightarrow> string \<Rightarrow> adv_fs
     \<Rightarrow> (io_error + nat) \<times> adv_fs" where
  "stream_update_for_latest_minute config src d indices expiry_codes now fs =
     (if \<not> ENABLE_STREAMING config then (Inr 0, fs)
      else stream_indices config src d expiry_codes now indices fs 0)"

definition empty_fs :: adv_fs where
  "empty_fs = \<lparr>csv_files = Map.empty, ledger_files = Map.empty, replace_faults = [],
               tmp_seq = 0, io_log = [], stdout = [], makedirs_faults = [], mkstemp_faults = [],
               write_faults = [], remove_faults = []\<rparr>"

text \<open>What \<^verbatim>\<open>read_weekday_master\<close> does to the two text cells of a record.\<close>

definition norm_row :: "WeekdayRow \<Rightarrow> WeekdayRow" where
  "norm_row r = r\<lparr>time_bucket := strip (time_bucket r), last_updated := strip (last_updated r)\<rparr>"

text \<open>
  The shape of every dict that \<^verbatim>\<open>read_weekday_master\<close> returns: distinct keys, each
  row filed under its own stripped time bucket.
\<close>

definition well_keyed :: "WeekdayRow dict \<Rightarrow> bool" where
  "well_keyed rows \<longleftrightarrow> distinct (map fst rows) \<and>
     (\<forall>k r. map_of rows k = Some r \<longrightarrow> time_bucket r = k \<and> strip k = k)"








subsection \<open>Notions for stating the claims about merges\<close>

text \<open>
  A merge target is a call of \<^verbatim>\<open>_apply_weekday_update\<close>: the path, the bucket and the
  total. \<open>run_updates\<close> makes the calls of a list one after the other and stops at the
  first exception, as the loops of the aggregator do.
\<close>

type_synonym merge_target = "string \<times> string \<times> rat"

fun run_updates ::
  "bool \<Rightarrow> string \<Rightarrow> merge_target list \<Rightarrow> adv_fs \<Rightarrow> nat \<Rightarrow> (io_error + nat) \<times> adv_fs" where
  "run_updates atomic now [] fs updated = (Inr updated, fs)"
| "run_updates atomic now ((path, tb, tot) # rest) fs updated =
     (case apply_weekday_update fs path tb tot atomic now of
        (Inl e, fs') \<Rightarrow> (Inl e, fs')
      | (Inr _, fs') \<Rightarrow> run_updates atomic now rest fs' (updated + 1))"

definition target_of :: "AdvConfig \<Rightarrow> date \<Rightarrow> string \<Rightarrow> (string \<times> string \<times> string) \<times> rat \<Rightarrow> merge_target" where
  "target_of config d index = (\<lambda>((expc, off, tb), tot).
     (weekday_master_path config index expc off (weekday_code_from_date d), tb, tot))"

text \<open>The merges of the primary offsets and of the pair offsets that a pass makes.\<close>

definition base_targets :: "AdvConfig \<Rightarrow> split_source \<Rightarrow> date \<Rightarrow> string list \<Rightarrow> string \<Rightarrow> merge_target list" where
  "base_targets config src d expiry_codes index =
     (if weekday_code_from_date d \<in> set trading_weekdays
      then map (target_of config d index)
             (build_totals_split_for_index_day src index expiry_codes BASE_OFFSETS)
      else [])"

definition pair_targets :: "AdvConfig \<Rightarrow> split_source \<Rightarrow> date \<Rightarrow> string list \<Rightarrow> string \<Rightarrow> merge_target list" where
  "pair_targets config src d expiry_codes index =
     map (target_of config d index)
       (select_pairs (build_totals_split_for_index_day src index expiry_codes PAIR_OFFSETS)
                     (build_totals_split_for_index_day src index expiry_codes BASE_OFFSETS))"

definition pass_targets :: "AdvConfig \<Rightarrow> split_source \<Rightarrow> date \<Rightarrow> string list \<Rightarrow> string list \<Rightarrow> merge_target list" where
  "pass_targets config src d indices expiry_codes =
     concat (map (\<lambda>index. base_targets config src d expiry_codes index
                           @ pair_targets config src d expiry_codes index) indices)"

text \<open>How often a list of merges addresses a bucket of a file.\<close>

definition hits :: "merge_target list \<Rightarrow> string \<Rightarrow> string \<Rightarrow> nat" where
  "hits ts path tb = length (filter (\<lambda>(p, k, _). p = path \<and> k = tb) ts)"

text \<open>The count and the sum that a file holds for a bucket, zero for a missing row.\<close>

definition bucket_n :: "adv_fs \<Rightarrow> string \<Rightarrow> string \<Rightarrow> int" where
  "bucket_n fs path tb =
     (case map_of (read_weekday_master fs path) tb of None \<Rightarrow> 0 | Some r \<Rightarrow> n_tot r)"

definition bucket_sum :: "adv_fs \<Rightarrow> string \<Rightarrow> string \<Rightarrow> rat" where
  "bucket_sum fs path tb =
     (case map_of (read_weekday_master fs path) tb of None \<Rightarrow> 0 | Some r \<Rightarrow> sum_tot r)"

definition stripped :: "merge_target list \<Rightarrow> bool" where
  "stripped ts \<longleftrightarrow> list_all (\<lambda>(p, k, t). strip k = k) ts"

subsection \<open>Examples and auxiliary notions for the streaming pass\<close>

text \<open>
  No scheduled rename fails for a reason other than a denied permission, and no other
  failure is scheduled; and the paths of a list of merges have a directory part.
\<close>

definition no_broken :: "adv_fs \<Rightarrow> bool" where
  "no_broken fs \<longleftrightarrow> ReplaceBroken \<notin> set (replace_faults fs) \<and> makedirs_faults fs = [] \<and>
     mkstemp_faults fs = [] \<and> write_faults fs = []"

definition in_dirs :: "merge_target list \<Rightarrow> bool" where
  "in_dirs ts \<longleftrightarrow> list_all (\<lambda>(p, k, t). dirname p \<noteq> []) ts"

text \<open>
  A configuration with streaming on, and a day on which the split files of NIFTY 50,
  this week, hold 12.5 one step above and 7.5 one step below the money at 10:15.
\<close>

definition example_config :: AdvConfig where
  "example_config = \<lparr>ADV_ROOT = ''data_adv'', SESSION_START_HHMM = (9, 15), SESSION_END_HHMM = (15, 30),
                      ATOMIC_CSV_WRITES = True, ENABLE_STREAMING = True\<rparr>"

definition example_source :: split_source where
  "example_source index expc off =
     (if index = ''NIFTY 50'' \<and> expc = ''this_week'' then
        (if off = ''atm_p1'' then [(''10:15'', 25 / 2)]
         else if off = ''atm_m1'' then [(''10:15'', 15 / 2)] else [])
      else [])"

definition saturday :: date where "saturday = \<lparr>year = 2025, month = 8, day = 16\<rparr>"

definition monday :: date where "monday = \<lparr>year = 2025, month = 8, day = 18\<rparr>"

definition stream_example :: "date \<Rightarrow> adv_fs \<Rightarrow> (io_error + nat) \<times> adv_fs" where
  "stream_example d fs =
     stream_update_for_latest_minute example_config example_source d [''NIFTY 50''] [''this_week'']
       ''2025-08-18T04:45:00Z'' fs"

definition monday_fs1 :: adv_fs where "monday_fs1 = snd (stream_example monday empty_fs)"

definition monday_fs2 :: adv_fs where "monday_fs2 = snd (stream_example monday monday_fs1)"

text \<open>
  Merging a sequence of values one at a time into one bucket of one file, and the five
  statistics of a row.
\<close>

definition same_bucket :: "string \<Rightarrow> string \<Rightarrow> rat list \<Rightarrow> merge_target list" where
  "same_bucket path tb vs = map (\<lambda>v. (path, tb, v)) vs"

definition stats :: "WeekdayRow \<Rightarrow> int \<times> rat \<times> rat \<times> rat \<times> rat" where
  "stats r = (n_tot r, sum_tot r, avg_tot r, min_tot r, max_tot r)"

text \<open>Four observations of 0.0000004.\<close>

definition tiny :: "rat list" where
  "tiny = [4 / 10000000, 4 / 10000000, 4 / 10000000, 4 / 10000000]"

definition tiny_fs :: adv_fs where
  "tiny_fs = snd (run_updates True ''t'' (same_bucket ''m/mon.csv'' ''09:15'' tiny) empty_fs 0)"

definition seq_fs :: "rat list \<Rightarrow> adv_fs" where
  "seq_fs vs = snd (run_updates True ''t'' (same_bucket ''m/mon.csv'' ''09:15'' vs) empty_fs 0)"

text \<open>
  Reading the log of a write: the events after those that were there before, the
  rename attempts among them and the pauses among them; and the number of scheduled
  outcomes, of the first \<open>n\<close>, that are denials before anything else.
\<close>

definition new_events :: "adv_fs \<Rightarrow> adv_fs \<Rightarrow> io_event list" where
  "new_events fs fs' = drop (length (io_log fs)) (io_log fs')"

fun is_replace :: "io_event \<Rightarrow> bool" where
  "is_replace (EvReplace _ _ _) = True"
| "is_replace _ = False"

fun sleeps :: "io_event list \<Rightarrow> rat list" where
  "sleeps [] = []"
| "sleeps (EvSleep s # evs) = s # sleeps evs"
| "sleeps (_ # evs) = sleeps evs"

definition denied_prefix :: "nat \<Rightarrow> adv_fs \<Rightarrow> nat" where
  "denied_prefix n fs = length (takeWhile (\<lambda>x. x = ReplaceDenied) (take n (replace_faults fs)))"

definition retry_events :: "fpath \<Rightarrow> fpath \<Rightarrow> nat list \<Rightarrow> io_event list" where
  "retry_events tmp dst as =
     concat (map (\<lambda>a. [EvReplace tmp dst (Some PermissionError), EvSleep (2 / 10 + 2 / 10 * of_nat a)]) as)"

subsection \<open>adv\_ledger.py\<close>

text \<open>
  The ledger of a weekday master is the text file beside it; a ledger file is kept as
  the list of its lines.
\<close>

definition ledger_path_for :: "string \<Rightarrow> string" where
  "ledger_path_for weekday_csv_path = weekday_csv_path @ ''.ledger''"

definition ledger_lines :: "string list \<Rightarrow> string list" where
  "ledger_lines ls = filter (\<lambda>s. s \<noteq> []) (map strip ls)"

definition load_ledger :: "adv_fs \<Rightarrow> string \<Rightarrow> string set" where
  "load_ledger fs weekday_csv_path =
     (case ledger_files fs (ledger_path_for weekday_csv_path) of
        None \<Rightarrow> {}
      | Some ls \<Rightarrow> set (ledger_lines ls))"

definition append_ledger :: "adv_fs \<Rightarrow> string \<Rightarrow> string \<Rightarrow> adv_fs" where
  "append_ledger fs weekday_csv_path date_str =
     (let path = ledger_path_for weekday_csv_path
      in fs\<lparr>ledger_files := (ledger_files fs)(path \<mapsto>
               (case ledger_files fs path of None \<Rightarrow> [] | Some ls \<Rightarrow> ls) @ [date_str])\<rparr>)"

subsection \<open>adv\_aggregator.py: the raw-row reconciler\<close>


















subsection \<open>weekday\_master\_bulk.py\<close>

text \<open>
  The bulk reconciler keeps masters of its own, with the columns \<open>MASTER_COLUMNS\<close>: a
  running average, a counter and the day of the last update per minute. A
  \<^verbatim>\<open>pathlib.Path\<close> is the list of its components. The masters (and their temporary
  files) and the ledgers are two stores; \<^verbatim>\<open>os.replace\<close> draws its outcome from a
  schedule as before.
\<close>

definition MASTER_COLUMNS :: "string list" where
  "MASTER_COLUMNS = [''HH:MM'', ''HIST_AVG'', ''COUNTER'', ''LAST_UPDATED'']"

type_synonym path = "string list"

type_synonym master_entry = "rat \<times> int \<times> string"

type_synonym master_record = "string \<times> rat \<times> int \<times> string"

record bulk_fs =
  master_files :: "path \<rightharpoonup> master_record list"
  bulk_ledgers :: "path \<rightharpoonup> string list"
  bulk_faults :: "replace_outcome list"

text \<open>
  \<^verbatim>\<open>int\<close> of a string: white space around, an optional sign, decimal digits
  (underscores between digits are not modelled).
\<close>

definition digit_val :: "char \<Rightarrow> int option" where
  "digit_val c = (if CHR ''0'' \<le> c \<and> c \<le> CHR ''9'' then Some (int (of_char c) - 48) else None)"

fun digits_val :: "string \<Rightarrow> int \<Rightarrow> int option" where
  "digits_val [] acc = Some acc"
| "digits_val (c # cs) acc =
     (case digit_val c of None \<Rightarrow> None | Some d \<Rightarrow> digits_val cs (acc * 10 + d))"

definition py_int :: "string \<Rightarrow> int option" where
  "py_int s =
     (case strip s of
        [] \<Rightarrow> None
      | c # cs \<Rightarrow>
          if c = CHR ''-'' then (if cs = [] then None else map_option uminus (digits_val cs 0))
          else if c = CHR ''+'' then (if cs = [] then None else digits_val cs 0)
          else digits_val (c # cs) 0)"

text \<open>\<^verbatim>\<open>str.split(":")\<close>.\<close>

fun split_colon :: "string \<Rightarrow> string list" where
  "split_colon [] = [[]]"
| "split_colon (c # cs) =
     (if c = CHR '':'' then [] # split_colon cs
      else (case split_colon cs of [] \<Rightarrow> [[c]] | w # ws \<Rightarrow> (c # w) # ws))"

definition parse_hm :: "string \<Rightarrow> (int \<times> int) option" where
  "parse_hm s =
     (case map py_int (split_colon s) of
        [Some h, Some m] \<Rightarrow> Some (h, m)
      | _ \<Rightarrow> None)"

fun pair_le :: "int \<times> int \<Rightarrow> int \<times> int \<Rightarrow> bool" where
  "pair_le (a, b) (a', b') \<longleftrightarrow> a < a' \<or> (a = a' \<and> b \<le> b')"

text \<open>\<^verbatim>\<open>_in_session\<close>: permissive when any of the three strings does not parse.\<close>

definition in_session :: "string \<Rightarrow> string \<Rightarrow> string \<Rightarrow> bool" where
  "in_session hhmm start_hhmm end_hhmm =
     (case (parse_hm start_hhmm, parse_hm end_hhmm, parse_hm hhmm) of
        (Some s, Some e, Some t) \<Rightarrow> pair_le s t \<and> pair_le t e
      | _ \<Rightarrow> True)"

text \<open>
  \<^verbatim>\<open>hhmm_from_ts_ist\<close>: the five characters after the first \<open>T\<close>; without a \<open>T\<close> the
  stamp goes to \<^verbatim>\<open>dateutil\<close>, here the parameter \<open>isoparse\<close>, which gives the hour and
  the minute or raises.
\<close>

definition hhmm_from_ts_ist :: "(string \<Rightarrow> (nat \<times> nat) option) \<Rightarrow> string \<Rightarrow> exn + string" where
  "hhmm_from_ts_ist isoparse ts_iso =
     (case dropWhile (\<lambda>c. c \<noteq> CHR ''T'') ts_iso of
        _ # tpart \<Rightarrow> Inr (take 5 tpart)
      | [] \<Rightarrow> (case isoparse ts_iso of
                 Some (h, m) \<Rightarrow> Inr (two_digits h @ '':'' @ two_digits m)
               | None \<Rightarrow> Inl ValueError))"

definition master_path :: "path \<Rightarrow> string \<Rightarrow> string \<Rightarrow> string \<Rightarrow> path" where
  "master_path weekday_root index expiry strike =
     weekday_root @ [index, expiry, strike,
                     ''WEEKDAY_'' @ index @ ''_'' @ expiry @ ''_'' @ strike @ ''_MASTER.csv'']"

text \<open>
  \<^verbatim>\<open>path.with_suffix(path.suffix + ".ledger")\<close> and \<^verbatim>\<open>path.with_name("." + path.name + ".tmp")\<close>
  for a path whose name ends in \<^verbatim>\<open>.csv\<close>, as every master path does.
\<close>

definition ledger_path_for_master :: "path \<Rightarrow> path" where
  "ledger_path_for_master master_csv_path = butlast master_csv_path @ [last master_csv_path @ ''.ledger'']"

definition tmp_path_for_master :: "path \<Rightarrow> path" where
  "tmp_path_for_master p = butlast p @ [''.'' @ last p @ ''.tmp'']"

definition read_ledger :: "bulk_fs \<Rightarrow> path \<Rightarrow> string set" where
  "read_ledger fs ledger_path =
     (case bulk_ledgers fs ledger_path of None \<Rightarrow> {} | Some ls \<Rightarrow> set (ledger_lines ls))"

definition bulk_append_ledger :: "bulk_fs \<Rightarrow> path \<Rightarrow> string \<Rightarrow> bulk_fs" where
  "bulk_append_ledger fs ledger_path day_str =
     fs\<lparr>bulk_ledgers := (bulk_ledgers fs)(ledger_path \<mapsto>
          (case bulk_ledgers fs ledger_path of None \<Rightarrow> [] | Some ls \<Rightarrow> ls) @ [day_str])\<rparr>"

definition load_master :: "bulk_fs \<Rightarrow> path \<Rightarrow> master_entry dict" where
  "load_master fs p =
     (case master_files fs p of
        None \<Rightarrow> []
      | Some recs \<Rightarrow>
          fold (\<lambda>(hhmm, avg, cnt, lu) out. if hhmm = [] then out else AList.update hhmm (avg, cnt, lu) out)
            recs [])"

definition master_records :: "master_entry dict \<Rightarrow> master_record list" where
  "master_records rows = map (\<lambda>(hhmm, avg, cnt, lu). (hhmm, q6 avg, cnt, lu)) (sort_key fst rows)"

text \<open>
  \<^verbatim>\<open>write_master_atomic\<close>: one temporary file of a fixed name, one rename; a failed
  rename leaves the function as an exception.
\<close>

definition write_master_atomic :: "bulk_fs \<Rightarrow> path \<Rightarrow> master_entry dict \<Rightarrow> (exn + unit) \<times> bulk_fs" where
  "write_master_atomic fs p rows =
     (let tmp = tmp_path_for_master p;
          fs1 = fs\<lparr>master_files := (master_files fs)(tmp \<mapsto> master_records rows)\<rparr>;
          outcome = (case bulk_faults fs1 of [] \<Rightarrow> ReplaceOk | x # _ \<Rightarrow> x);
          fs2 = fs1\<lparr>bulk_faults := tl (bulk_faults fs1)\<rparr>
      in case outcome of
           ReplaceOk \<Rightarrow>
             (Inr (), fs2\<lparr>master_files := ((master_files fs2)(p := master_files fs2 tmp))(tmp := None)\<rparr>)
         | ReplaceDenied \<Rightarrow> (Inl (IOError PermissionError), fs2)
         | ReplaceBroken \<Rightarrow> (Inl (IOError OSError), fs2))"

text \<open>
  A row of a daily file: the float of the cell \<^verbatim>\<open>total_premium\<close>, \<open>None\<close> for a cell
  that is missing, empty or not a number, and the cell \<^verbatim>\<open>ts_ist\<close>, empty when missing.
\<close>

record daily_row =
  total_premium :: "rat option"
  ts_ist :: string

fun daily_loop ::
  "(string \<Rightarrow> (nat \<times> nat) option) \<Rightarrow> string \<Rightarrow> string \<Rightarrow> string \<Rightarrow> daily_row list
     \<Rightarrow> master_entry dict \<Rightarrow> bool \<Rightarrow> exn + master_entry dict \<times> bool" where
  "daily_loop isoparse day_str session_start session_end [] rows updated = Inr (rows, updated)"
| "daily_loop isoparse day_str session_start session_end (row # rest) rows updated =
     (case total_premium row of
        None \<Rightarrow> daily_loop isoparse day_str session_start session_end rest rows updated
      | Some tot \<Rightarrow>
          if ts_ist row = [] then daily_loop isoparse day_str session_start session_end rest rows updated
          else case hhmm_from_ts_ist isoparse (ts_ist row) of
            Inl e \<Rightarrow> Inl e
          | Inr hhmm \<Rightarrow>
              if \<not> in_session hhmm session_start session_end
              then daily_loop isoparse day_str session_start session_end rest rows updated
              else (case map_of rows hhmm of
                      Some (avg, cnt, _) \<Rightarrow>
                        if cnt + 1 = 0 then Inl ZeroDivisionError
                        else daily_loop isoparse day_str session_start session_end rest
                               (AList.update hhmm ((avg * of_int cnt + tot) / of_int (cnt + 1), cnt + 1, day_str) rows)
                               True
                    | None \<Rightarrow>
                        daily_loop isoparse day_str session_start session_end rest
                          (AList.update hhmm (tot, 1, day_str) rows) True))"

text \<open>
  The arguments of \<^verbatim>\<open>run_bulk_eod\<close> and of \<^verbatim>\<open>update_master_from_daily\<close> that stay the
  same during a run, with the two library functions \<^verbatim>\<open>dateutil.parser.isoparse\<close> and
  \<^verbatim>\<open>date.fromisoformat\<close> (\<open>None\<close> where they raise).
\<close>

record bulk_config =
  isoparse :: "string \<Rightarrow> (nat \<times> nat) option"
  fromisoformat :: "string \<Rightarrow> date option"
  weekday_root :: path
  use_ledger :: bool
  session_start :: string
  session_end :: string

definition update_master_from_daily ::
  "bulk_config \<Rightarrow> bulk_fs \<Rightarrow> daily_row list \<Rightarrow> string \<Rightarrow> string \<Rightarrow> string \<Rightarrow> string
     \<Rightarrow> (exn + path) \<times> bulk_fs" where
  "update_master_from_daily cfg fs daily_csv idx expc strike day_str =
     (let master = master_path (weekday_root cfg) idx expc strike;
          ledger = ledger_path_for_master master
      in if use_ledger cfg \<and> day_str \<in> read_ledger fs ledger then (Inr master, fs)
         else
           case daily_loop (isoparse cfg) day_str (session_start cfg) (session_end cfg) daily_csv
                  (load_master fs master) False of
             Inl e \<Rightarrow> (Inl e, fs)
           | Inr (rows, updated) \<Rightarrow>
               if updated then
                 (case write_master_atomic fs master rows of
                    (Inl e, fs') \<Rightarrow> (Inl e, fs')
                  | (Inr _, fs') \<Rightarrow>
                      (Inr master, if use_ledger cfg then bulk_append_ledger fs' ledger day_str else fs'))
               else (Inr master, fs))"

text \<open>
  The loop of \<^verbatim>\<open>run_bulk_eod\<close> over what \<^verbatim>\<open>find_daily_csvs\<close> found for the day: the
  index, the expiry bucket and the strike of each daily file, with its rows.
  \<^verbatim>\<open>update_master_from_daily\<close> returns the path of the master in every case, so every
  path is appended.
\<close>

type_synonym found_csv = "(string \<times> string \<times> string) \<times> daily_row list"

fun bulk_loop ::
  "bulk_config \<Rightarrow> string \<Rightarrow> found_csv list \<Rightarrow> bulk_fs \<Rightarrow> path list \<Rightarrow> (exn + path list) \<times> bulk_fs" where
  "bulk_loop cfg day_str [] fs updated_paths = (Inr updated_paths, fs)"
| "bulk_loop cfg day_str (((idx, expc, strike), daily_csv) # found) fs updated_paths =
     (case update_master_from_daily cfg fs daily_csv idx expc strike day_str of
        (Inl e, fs') \<Rightarrow> (Inl e, fs')
      | (Inr mp, fs') \<Rightarrow> bulk_loop cfg day_str found fs' (updated_paths @ [mp]))"

text \<open>
  \<^verbatim>\<open>run_bulk_eod\<close>: the day is \<^verbatim>\<open>date.fromisoformat(date_iso)\<close>, or today for an empty
  or missing \<open>date_iso\<close>, and \<open>day_str\<close> is its \<^verbatim>\<open>isoformat()\<close>.
\<close>

definition run_bulk_eod ::
  "bulk_config \<Rightarrow> string \<Rightarrow> date \<Rightarrow> found_csv list \<Rightarrow> bulk_fs \<Rightarrow> (exn + path list) \<times> bulk_fs" where
  "run_bulk_eod cfg date_iso today found fs =
     (case (if date_iso \<noteq> []
            then (case fromisoformat cfg date_iso of None \<Rightarrow> Inl ValueError | Some d \<Rightarrow> Inr d)
            else Inr today) of
        Inl e \<Rightarrow> (Inl e, fs)
      | Inr d \<Rightarrow> bulk_loop cfg (isoformat d) found fs [])"

definition key_master :: "bulk_config \<Rightarrow> string \<times> string \<times> string \<Rightarrow> path" where
  "key_master cfg = (\<lambda>(idx, expc, strike). master_path (weekday_root cfg) idx expc strike)"

definition noop_cond :: "bulk_config \<Rightarrow> bulk_fs \<Rightarrow> daily_row list \<Rightarrow> string \<times> string \<times> string \<Rightarrow> string \<Rightarrow> bool" where
  "noop_cond cfg fs daily_csv k day_str \<longleftrightarrow>
     (use_ledger cfg \<and> day_str \<in> read_ledger fs (ledger_path_for_master (key_master cfg k))) \<or>
     (\<exists>rows. daily_loop (isoparse cfg) day_str (session_start cfg) (session_end cfg) daily_csv
               (load_master fs (key_master cfg k)) False = Inr (rows, False))"

text \<open>
  An example day for the bulk reconciler: one daily file, NIFTY, this week, at the
  money, with one row of 100 at 09:15; a configuration with the ledger and one
  without; the empty store and a store whose ledger already has the day.
\<close>

definition example_found :: "found_csv list" where
  "example_found =
     [((''NIFTY'', ''this_week'', ''atm''),
       [\<lparr>total_premium = Some 100, ts_ist = ''2025-08-18T09:15:00+05:30''\<rparr>])]"

definition ledger_cfg :: bulk_config where
  "ledger_cfg = \<lparr>isoparse = (\<lambda>_. None),
                 fromisoformat = (\<lambda>s. if s = ''2025-08-18'' then Some monday else None),
                 weekday_root = [''WEEKDAY''], use_ledger = True,
                 session_start = ''09:15'', session_end = ''15:30''\<rparr>"

definition no_ledger_cfg :: bulk_config where
  "no_ledger_cfg = ledger_cfg\<lparr>use_ledger := False\<rparr>"

definition example_master :: path where
  "example_master = master_path [''WEEKDAY''] ''NIFTY'' ''this_week'' ''atm''"

definition empty_bulk_fs :: bulk_fs where
  "empty_bulk_fs = \<lparr>master_files = Map.empty, bulk_ledgers = Map.empty, bulk_faults = []\<rparr>"

definition recorded_bulk_fs :: bulk_fs where
  "recorded_bulk_fs =
     empty_bulk_fs\<lparr>bulk_ledgers := [ledger_path_for_master example_master \<mapsto> [''2025-08-18'']]\<rparr>"

definition bulk_run :: "bulk_config \<Rightarrow> bulk_fs \<Rightarrow> (exn + path list) \<times> bulk_fs" where
  "bulk_run cfg fs = run_bulk_eod cfg ''2025-08-18'' saturday example_found fs"







text \<open>A dict of one row, and stores in which the next renames are denied.\<close>

definition one_row :: "WeekdayRow dict" where
  "one_row = [(''09:15'', \<lparr>time_bucket = ''09:15'', n_tot = 1, sum_tot = 100, avg_tot = 100,
                            min_tot = 100, max_tot = 100, last_updated = ''2025-08-18T03:45:00Z''\<rparr>)]"

definition denied_fs :: "nat \<Rightarrow> adv_fs" where
  "denied_fs n = empty_fs\<lparr>replace_faults := replicate n ReplaceDenied\<rparr>"

definition denied_bulk_fs :: bulk_fs where
  "denied_bulk_fs = empty_bulk_fs\<lparr>bulk_faults := [ReplaceDenied]\<rparr>"

definition fallback_fs :: adv_fs where
  "fallback_fs = snd (write_weekday_master (denied_fs 5) ''m/mon.csv'' one_row True)"


section \<open>Properties\<close>



lemma os_replace_named:
  assumes "os_replace fs tmp dst = (r, fs')"
  shows "ledger_files fs' = ledger_files fs \<and> stdout fs' = stdout fs \<and> tmp_seq fs' = tmp_seq fs
     \<and> makedirs_faults fs' = makedirs_faults fs \<and> mkstemp_faults fs' = mkstemp_faults fs
     \<and> write_faults fs' = write_faults fs \<and> remove_faults fs' = remove_faults fs
     \<and> r \<noteq> Inl FileNotFoundError
     \<and> (case r of Inr _ \<Rightarrow> csv_files fs' = ((csv_files fs)(dst := csv_files fs tmp))(tmp := None)
                | Inl _ \<Rightarrow> csv_files fs' = csv_files fs)"
  using assms
  by (auto simp: os_replace_def Let_def split: list.splits replace_outcome.splits)

lemma replace_loop_files:
  "replace_loop fs tmp dst as = (res, fs') \<Longrightarrow>
     ledger_files fs' = ledger_files fs \<and> stdout fs' = stdout fs \<and> tmp_seq fs' = tmp_seq fs \<and>
     makedirs_faults fs' = makedirs_faults fs \<and> mkstemp_faults fs' = mkstemp_faults fs \<and>
     write_faults fs' = write_faults fs \<and> remove_faults fs' = remove_faults fs \<and>
     (case res of
        Replaced \<Rightarrow> csv_files fs' = ((csv_files fs)(dst := csv_files fs tmp))(tmp := None)
      | _ \<Rightarrow> csv_files fs' = csv_files fs)"
proof (induction as arbitrary: fs)
  case Nil
  then show ?case by auto
next
  case (Cons a as)
  obtain r fs1 where r: "os_replace fs tmp dst = (r, fs1)" by (cases "os_replace fs tmp dst")
  note o = os_replace_named[OF r]
  show ?case
  proof (cases r)
    case (Inr u)
    with Cons.prems r o show ?thesis by auto
  next
    case (Inl e)
    show ?thesis
    proof (cases e)
      case PermissionError
      with Inl r Cons.prems
      have "replace_loop (sleep fs1 (2 / 10 + 2 / 10 * of_nat a)) tmp dst as = (res, fs')" by simp
      from Cons.IH[OF this] o Inl show ?thesis by (auto simp: sleep_def split: replace_result.splits)
    next
      case OSError
      with Inl r Cons.prems o show ?thesis by auto
    next
      case FileNotFoundError
      with Inl r Cons.prems o show ?thesis by auto
    qed
  qed
qed

lemma ensure_dir_frame:
  assumes "ensure_dir fs path = (r, fs')"
  shows "csv_files fs' = csv_files fs \<and> ledger_files fs' = ledger_files fs \<and> stdout fs' = stdout fs
     \<and> tmp_seq fs' = tmp_seq fs \<and> replace_faults fs' = replace_faults fs
     \<and> mkstemp_faults fs' = mkstemp_faults fs \<and> write_faults fs' = write_faults fs
     \<and> remove_faults fs' = remove_faults fs"
  using assms by (auto simp: ensure_dir_def Let_def split: if_splits option.splits)

lemma mkstemp_frame:
  assumes "mkstemp fs d = (r, fs')"
  shows "ledger_files fs' = ledger_files fs \<and> stdout fs' = stdout fs
     \<and> replace_faults fs' = replace_faults fs \<and> write_faults fs' = write_faults fs
     \<and> remove_faults fs' = remove_faults fs \<and> makedirs_faults fs' = makedirs_faults fs
     \<and> csv_files fs' (Named p) = csv_files fs (Named p)
     \<and> (case r of Inr tmp \<Rightarrow> tmp = Temp d (tmp_seq fs) | Inl _ \<Rightarrow> csv_files fs' = csv_files fs)"
  using assms by (auto simp: mkstemp_def Let_def split: option.splits)

lemma write_to_file_frame:
  assumes "write_to_file fs fp rows = (r, fs')"
  shows "ledger_files fs' = ledger_files fs \<and> stdout fs' = stdout fs \<and> tmp_seq fs' = tmp_seq fs
     \<and> replace_faults fs' = replace_faults fs \<and> remove_faults fs' = remove_faults fs
     \<and> makedirs_faults fs' = makedirs_faults fs \<and> mkstemp_faults fs' = mkstemp_faults fs
     \<and> (q \<noteq> fp \<longrightarrow> csv_files fs' q = csv_files fs q)
     \<and> (r = Inr () \<longrightarrow> csv_files fs' fp = Some (file_rows rows))"
  using assms by (auto simp: write_to_file_def Let_def split: list.splits write_outcome.splits)

lemma remove_tmp_frame:
  "ledger_files (remove_tmp fs tmp) = ledger_files fs \<and> stdout (remove_tmp fs tmp) = stdout fs
   \<and> (q \<noteq> tmp \<longrightarrow> csv_files (remove_tmp fs tmp) q = csv_files fs q)"
  by (auto simp: remove_tmp_def Let_def split: option.splits)

lemma write_via_tmp_named:
  assumes "write_via_tmp fs (Temp d k) path rows = (r, fs')"
  shows "ledger_files fs' = ledger_files fs \<and> stdout fs' = stdout fs
     \<and> (p \<noteq> path \<longrightarrow> csv_files fs' (Named p) = csv_files fs (Named p))
     \<and> (r = Inr () \<longrightarrow> csv_files fs' (Named path) = Some (file_rows rows))"
proof -
  let ?tmp = "Temp d k"
  obtain r2 fs2 where w: "write_to_file fs ?tmp rows = (r2, fs2)" by (cases "write_to_file fs ?tmp rows")
  note wf = write_to_file_frame[OF w]
  show ?thesis
  proof (cases r2)
    case (Inl e)
    with assms w wf[of "Named p"] wf[of "Named path"] show ?thesis
      by (auto simp: write_via_tmp_def)
  next
    case (Inr u)
    obtain res fs3 where l: "replace_loop fs2 ?tmp (Named path) [0..<5] = (res, fs3)"
      by (cases "replace_loop fs2 ?tmp (Named path) [0..<5]")
    note rl = replace_loop_files[OF l]
    from Inr wf have t: "csv_files fs2 ?tmp = Some (file_rows rows)" by auto
    show ?thesis
    proof (cases res)
      case Replaced
      with assms w Inr l rl wf[of "Named p"] t show ?thesis
        by (auto simp: write_via_tmp_def)
    next
      case Exhausted
      obtain r4 fs4 where w4: "write_to_file fs3 (Named path) rows = (r4, fs4)"
        by (cases "write_to_file fs3 (Named path) rows")
      note wf4 = write_to_file_frame[OF w4]
      from assms w Inr l Exhausted w4 have "r = r4" "fs' = fs4" by (auto simp: write_via_tmp_def)
      with Exhausted rl wf[of "Named p"] wf4[of "Named p"] wf4[of "Named path"] show ?thesis
        by auto
    next
      case (Failed e)
      with assms w Inr l rl wf[of "Named p"] show ?thesis
        by (auto simp: write_via_tmp_def)
    qed
  qed
qed

lemma write_weekday_master_named:
  assumes "write_weekday_master fs path rows atomic = (r, fs')"
  shows "ledger_files fs' = ledger_files fs \<and> stdout fs' = stdout fs \<and>
     (case r of
        Inr _ \<Rightarrow> csv_files fs' (Named p) = (if p = path then Some (file_rows rows) else csv_files fs (Named p))
      | Inl _ \<Rightarrow> p \<noteq> path \<longrightarrow> csv_files fs' (Named p) = csv_files fs (Named p))"
proof -
  obtain r0 fs0 where e: "ensure_dir fs path = (r0, fs0)" by (cases "ensure_dir fs path")
  note ef = ensure_dir_frame[OF e]
  show ?thesis
  proof (cases r0)
    case (Inl x)
    with assms e ef show ?thesis by (auto simp: write_weekday_master_def)
  next
    case (Inr u)
    show ?thesis
    proof (cases atomic)
      case False
      with assms e Inr have w: "write_to_file fs0 (Named path) rows = (r, fs')"
        by (simp add: write_weekday_master_def)
      from write_to_file_frame[OF w, of "Named p"] ef show ?thesis
        by (cases r) auto
    next
      case True
      obtain r1 fs1 where m: "mkstemp fs0 (dirname path) = (r1, fs1)"
        by (cases "mkstemp fs0 (dirname path)")
      note mf = mkstemp_frame[OF m]
      show ?thesis
      proof (cases r1)
        case (Inl x)
        with assms e Inr True m mf[of p] ef show ?thesis by (auto simp: write_weekday_master_def)
      next
        case (Inr tmp)
        with mf[of p] have tmp: "tmp = Temp (dirname path) (tmp_seq fs0)" by simp
        obtain r4 fs4 where v: "write_via_tmp fs1 tmp path rows = (r4, fs4)"
          by (cases "write_via_tmp fs1 tmp path rows")
        from assms e \<open>r0 = Inr u\<close> True m Inr v have rr: "r = r4" "fs' = remove_tmp fs4 tmp"
          by (auto simp: write_weekday_master_def)
        note vn = write_via_tmp_named[OF v[unfolded tmp], of p]
        note rf = remove_tmp_frame[of fs4 tmp "Named p"]
        from vn rf rr ef mf[of p] tmp show ?thesis
          by (cases r4) auto
      qed
    qed
  qed
qed



lemma dropWhile_rev_dropWhile:
  assumes "t = [] \<or> \<not> P (hd t)"
  shows "dropWhile P (rev (dropWhile P (rev t))) = rev (dropWhile P (rev t))"
proof (cases "dropWhile P (rev t) = []")
  case True
  then show ?thesis by (simp del: dropWhile_eq_Nil_conv)
next
  case False
  define u where "u = dropWhile P (rev t)"
  have "rev t = takeWhile P (rev t) @ u" by (simp add: u_def)
  then have "t = rev u @ rev (takeWhile P (rev t))" by (metis rev_append rev_rev_ident)
  moreover have "rev u \<noteq> []" using False by (simp add: u_def)
  ultimately have "hd (rev u) = hd t" by (metis hd_append2)
  moreover have "t \<noteq> []" using False by auto
  ultimately have "\<not> P (hd (rev u))" using assms by simp
  with \<open>rev u \<noteq> []\<close> have "dropWhile P (rev u) = rev u" by (cases "rev u") auto
  then show ?thesis by (simp add: u_def)
qed

lemma strip_strip: "strip (strip s) = strip s"
proof -
  let ?t = "dropWhile is_space s"
  have "?t = [] \<or> \<not> is_space (hd ?t)" by (metis hd_dropWhile)
  from dropWhile_rev_dropWhile[of ?t is_space, OF this] show ?thesis
    by (simp add: strip_def dropWhile_idem)
qed

lemma fold_read_row:
  "map_of (fold read_row recs acc) =
     map_of acc ++ map_of (rev (map (\<lambda>r. (strip (time_bucket r), norm_row r)) recs))"
proof (induction recs arbitrary: acc)
  case Nil
  show ?case by simp
next
  case (Cons r recs)
  have "map_of (read_row r acc) = map_of acc ++ [strip (time_bucket r) \<mapsto> norm_row r]"
    by (simp add: read_row_def Let_def update_conv' norm_row_def)
  then show ?case
    by (simp add: Cons.IH map_of_append del: map_add_upd)
qed

lemma map_of_rev_distinct: "distinct (map fst xs) \<Longrightarrow> map_of (rev xs) = map_of xs"
  by (rule map_of_inject_set[THEN iffD2]) (auto simp: rev_map[symmetric])

lemma well_keyed_Nil: "well_keyed []"
  by (simp add: well_keyed_def)

lemma well_keyed_update:
  "well_keyed rows \<Longrightarrow> time_bucket r = tb \<Longrightarrow> strip tb = tb \<Longrightarrow> well_keyed (AList.update tb r rows)"
  by (auto simp: well_keyed_def distinct_update update_conv' split: if_splits)

lemma well_keyed_fold_read: "well_keyed acc \<Longrightarrow> well_keyed (fold read_row recs acc)"
proof (induction recs arbitrary: acc)
  case Nil then show ?case by simp
next
  case (Cons r recs)
  have "well_keyed (read_row r acc)"
    unfolding read_row_def Let_def
    by (rule well_keyed_update[OF Cons.prems]) (simp_all add: strip_strip)
  then show ?case by (simp add: Cons.IH)
qed

lemma well_keyed_read: "well_keyed (read_weekday_master fs path)"
  by (simp add: read_weekday_master_def well_keyed_fold_read well_keyed_Nil split: option.splits)

lemma read_file_rows:
  assumes "well_keyed rows" and "csv_files fs (Named path) = Some (file_rows rows)"
  shows "map_of (read_weekday_master fs path) k = map_option (norm_row \<circ> persist) (map_of rows k)"
proof -
  let ?kv = "\<lambda>r. (strip (time_bucket r), norm_row r)"
  let ?srt = "sort_key fst rows"
  have d0: "distinct (map fst rows)" using assms(1) by (simp add: well_keyed_def)
  have d: "distinct (map fst ?srt)" using d0
    by (metis distinct_map distinct_sort set_sort sort_key_def mset_sort mset_map mset_eq_imp_distinct_iff)
  have m: "map_of ?srt = map_of rows"
    using d d0 by (intro map_of_inject_set[THEN iffD2]) auto
  have "\<And>k r. (k, r) \<in> set ?srt \<Longrightarrow> time_bucket r = k \<and> strip k = k"
    using assms(1) d0 by (auto simp: well_keyed_def)
  then have kv: "map ?kv (file_rows rows) = map (\<lambda>(k, r). (k, (norm_row \<circ> persist) r)) ?srt"
    by (auto simp: file_rows_def persist_def)
  have "map_of (read_weekday_master fs path) = map_of (rev (map ?kv (file_rows rows)))"
    using assms(2) by (simp add: read_weekday_master_def fold_read_row)
  also have "\<dots> = map_of (map ?kv (file_rows rows))"
    by (rule map_of_rev_distinct) (simp add: kv d comp_def case_prod_unfold)
  also have "\<dots> = map_of (map (\<lambda>(k, r). (k, (norm_row \<circ> persist) r)) ?srt)" by (simp only: kv)
  finally show ?thesis by (simp add: map_of_map m comp_def)
qed

lemma apply_weekday_update_Inr:
  assumes "apply_weekday_update fs path tb tot atomic now = (Inr (n, row), fs')"
  shows "row = merged_row (map_of (read_weekday_master fs path) tb) tb tot now"
    and "n = n_tot row"
    and "csv_files fs' (Named p) =
          (if p = path then Some (file_rows (AList.update tb row (read_weekday_master fs path)))
           else csv_files fs (Named p))"
    and "ledger_files fs' = ledger_files fs" and "stdout fs' = stdout fs"
proof -
  let ?rows = "AList.update tb (merged_row (map_of (read_weekday_master fs path) tb) tb tot now)
                 (read_weekday_master fs path)"
  obtain r fs1 where w: "write_weekday_master fs path ?rows atomic = (r, fs1)"
    by (cases "write_weekday_master fs path ?rows atomic")
  from assms w have r: "r = Inr ()" "fs1 = fs'"
    and row: "row = merged_row (map_of (read_weekday_master fs path) tb) tb tot now" "n = n_tot row"
    by (auto simp: apply_weekday_update_def Let_def split: sum.splits)
  show "row = merged_row (map_of (read_weekday_master fs path) tb) tb tot now" "n = n_tot row"
    by (fact row)+
  from write_weekday_master_named[OF w, of p] r row
  show "csv_files fs' (Named p) =
          (if p = path then Some (file_rows (AList.update tb row (read_weekday_master fs path)))
           else csv_files fs (Named p))"
    "ledger_files fs' = ledger_files fs" "stdout fs' = stdout fs"
    by auto
qed

lemma merged_row_tb: "time_bucket (merged_row prev tb tot now) = tb"
  by (simp add: merged_row_def split: option.splits)

lemma read_after_update:
  assumes "apply_weekday_update fs path tb tot atomic now = (Inr (n, row), fs')" and "strip tb = tb"
  shows "map_of (read_weekday_master fs' path) k =
     (if k = tb then Some (norm_row (persist row))
      else map_option (norm_row \<circ> persist) (map_of (read_weekday_master fs path) k))"
proof -
  note u = apply_weekday_update_Inr[OF assms(1)]
  have wk: "well_keyed (AList.update tb row (read_weekday_master fs path))"
    by (rule well_keyed_update[OF well_keyed_read]) (simp_all add: u(1) merged_row_tb assms(2))
  have "csv_files fs' (Named path) = Some (file_rows (AList.update tb row (read_weekday_master fs path)))"
    using u(3)[of path] by simp
  from read_file_rows[OF wk this, of k] show ?thesis
    by (simp add: update_conv')
qed


















lemma run_updates_append:
  "run_updates atomic now (xs @ ys) fs u =
     (case run_updates atomic now xs fs u of
        (Inl e, fs') \<Rightarrow> (Inl e, fs')
      | (Inr u', fs') \<Rightarrow> run_updates atomic now ys fs' u')"
  by (induction atomic now xs fs u rule: run_updates.induct) (auto split: prod.splits sum.splits)

lemma base_updates_run:
  "base_updates config d index now base fs u =
     run_updates (ATOMIC_CSV_WRITES config) now
       (if weekday_code_from_date d \<in> set trading_weekdays then map (target_of config d index) base else [])
       fs u"
  by (induction config d index now base fs u rule: base_updates.induct)
     (auto simp: target_of_def Let_def split: prod.splits sum.splits)

lemma pair_updates_run:
  "pair_updates config d index now pairs fs u =
     run_updates (ATOMIC_CSV_WRITES config) now (map (target_of config d index) pairs) fs u"
  by (induction config d index now pairs fs u rule: pair_updates.induct)
     (auto simp: target_of_def Let_def split: prod.splits sum.splits)

lemma stream_index_run:
  "stream_index config src d expiry_codes now index fs u =
     run_updates (ATOMIC_CSV_WRITES config) now
       (base_targets config src d expiry_codes index @ pair_targets config src d expiry_codes index) fs u"
  by (auto simp: stream_index_def Let_def base_updates_run pair_updates_run run_updates_append
      base_targets_def pair_targets_def split: prod.splits sum.splits)

lemma stream_indices_run:
  "stream_indices config src d expiry_codes now indices fs u =
     run_updates (ATOMIC_CSV_WRITES config) now (pass_targets config src d indices expiry_codes) fs u"
proof (induction indices arbitrary: fs u)
  case Nil
  show ?case by (simp add: pass_targets_def)
next
  case (Cons i indices)
  have p: "pass_targets config src d (i # indices) expiry_codes =
      (base_targets config src d expiry_codes i @ pair_targets config src d expiry_codes i)
        @ pass_targets config src d indices expiry_codes"
    by (simp add: pass_targets_def)
  show ?case
    unfolding p run_updates_append[of _ _ "base_targets config src d expiry_codes i @ pair_targets config src d expiry_codes i"]
    by (simp add: stream_index_run Cons.IH split: prod.splits sum.splits)
qed

lemma stream_update_run:
  "ENABLE_STREAMING config \<Longrightarrow>
   stream_update_for_latest_minute config src d indices expiry_codes now fs =
     run_updates (ATOMIC_CSV_WRITES config) now (pass_targets config src d indices expiry_codes) fs 0"
  by (simp add: stream_update_for_latest_minute_def stream_indices_run)

lemma read_other_path:
  assumes "apply_weekday_update fs path tb tot atomic now = (Inr x, fs')" and "p \<noteq> path"
  shows "read_weekday_master fs' p = read_weekday_master fs p"
proof -
  obtain n row where x: "x = (n, row)" by (cases x)
  from apply_weekday_update_Inr(3)[OF assms(1)[unfolded x], of p] assms(2)
  show ?thesis by (simp add: read_weekday_master_def)
qed

lemma update_bucket_n:
  assumes "apply_weekday_update fs path tb tot atomic now = (Inr x, fs')" and "strip tb = tb"
  shows "bucket_n fs' p k = bucket_n fs p k + (if p = path \<and> k = tb then 1 else 0)"
proof (cases "p = path")
  case False
  with read_other_path[OF assms(1) False] show ?thesis by (simp add: bucket_n_def)
next
  case True
  obtain n row where x: "x = (n, row)" by (cases x)
  note a = assms(1)[unfolded x]
  have row: "row = merged_row (map_of (read_weekday_master fs path) tb) tb tot now"
    by (rule apply_weekday_update_Inr(1)[OF a])
  show ?thesis
    using read_after_update[OF a assms(2), of k] True
    by (auto simp: bucket_n_def norm_row_def persist_def row merged_row_def split: option.splits)
qed

lemma run_updates_count:
  "run_updates atomic now ts fs u = (Inr c, fs') \<Longrightarrow> c = u + length ts"
  by (induction atomic now ts fs u rule: run_updates.induct) (auto split: prod.splits sum.splits)

lemma run_bucket_n:
  "run_updates atomic now ts fs u = (Inr c, fs') \<Longrightarrow> stripped ts \<Longrightarrow>
     bucket_n fs' p k = bucket_n fs p k + int (hits ts p k)"
proof (induction atomic now ts fs u rule: run_updates.induct)
  case (1 atomic now fs updated)
  then show ?case by (simp add: hits_def)
next
  case (2 atomic now path tb tot rest fs updated)
  obtain r fs1 where a: "apply_weekday_update fs path tb tot atomic now = (r, fs1)"
    by (cases "apply_weekday_update fs path tb tot atomic now")
  with "2.prems" obtain x where r: "r = Inr x" by (cases r) auto
  from "2.prems" a r have run: "run_updates atomic now rest fs1 (updated + 1) = (Inr c, fs')" by simp
  from "2.prems"(2) have s: "strip tb = tb" "stripped rest" by (auto simp: stripped_def)
  have ih: "bucket_n fs' p k = bucket_n fs1 p k + int (hits rest p k)"
    by (rule "2.IH"[OF a[symmetric, unfolded r] refl run s(2)])
  from update_bucket_n[OF a[unfolded r] s(1), of p k] ih show ?case
    by (auto simp: hits_def)
qed



lemma round_half_even_of_int: "round_half_even (of_int k) = k"
  by (simp add: round_half_even_def)

lemma micros_grid: "micros (of_int k / 1000000) = k"
  by (simp add: micros_def round_half_even_of_int)

lemma q6_q6: "q6 (q6 x) = q6 x"
  by (simp add: q6_def micros_grid)

lemma q6_0: "q6 0 = 0"
  by (simp add: q6_def micros_def round_half_even_def)

lemma on_grid_iff: "q6 x = x \<longleftrightarrow> (\<exists>k. x = of_int k / 1000000)"
proof
  assume "q6 x = x"
  then have "x = of_int (micros x) / 1000000" by (simp add: q6_def)
  then show "\<exists>k. x = of_int k / 1000000" ..
next
  assume "\<exists>k. x = of_int k / 1000000"
  then obtain k where "x = of_int k / 1000000" ..
  then show "q6 x = x" using micros_grid[of k] by (simp only: q6_def)
qed

lemma on_grid_add: "q6 x = x \<Longrightarrow> q6 y = y \<Longrightarrow> q6 (x + y) = x + y"
proof -
  assume "q6 x = x" "q6 y = y"
  then obtain a b where "x = of_int a / 1000000" "y = of_int b / 1000000"
    by (auto simp: on_grid_iff)
  then have "x + y = of_int (a + b) / 1000000" by (simp add: add_divide_distrib)
  then show ?thesis by (metis on_grid_iff)
qed

lemma on_grid_min: "q6 x = x \<Longrightarrow> q6 y = y \<Longrightarrow> q6 (min x y) = min x y"
  by (simp add: min_def)

lemma on_grid_max: "q6 x = x \<Longrightarrow> q6 y = y \<Longrightarrow> q6 (max x y) = max x y"
  by (simp add: max_def)

lemma round_half_even_near: "\<bar>of_int (round_half_even x) - x\<bar> \<le> 1 / 2"
proof -
  have "of_int \<lfloor>x\<rfloor> \<le> x" "x < of_int \<lfloor>x\<rfloor> + 1" by linarith+
  then show ?thesis by (auto simp: round_half_even_def Let_def)
qed

lemma q6_near: "\<bar>q6 x - x\<bar> \<le> 1 / 2000000"
proof -
  have "\<bar>of_int (micros x) - x * 1000000\<bar> \<le> 1 / 2"
    unfolding micros_def by (rule round_half_even_near)
  moreover have "q6 x - x = (of_int (micros x) - x * 1000000) / 1000000"
    by (simp add: q6_def diff_divide_distrib)
  ultimately have "\<bar>q6 x - x\<bar> = \<bar>of_int (micros x) - x * 1000000\<bar> / 1000000"
    by (simp only: abs_divide)
  with \<open>\<bar>of_int (micros x) - x * 1000000\<bar> \<le> 1 / 2\<close> show ?thesis by simp
qed

lemma update_bucket_sum:
  assumes "apply_weekday_update fs path tb tot atomic now = (Inr x, fs')" and "strip tb = tb"
  shows "bucket_sum fs' p k =
     (if p = path then (if k = tb then q6 (bucket_sum fs p k + tot) else q6 (bucket_sum fs p k))
      else bucket_sum fs p k)"
proof (cases "p = path")
  case False
  with read_other_path[OF assms(1) False] show ?thesis by (simp add: bucket_sum_def)
next
  case True
  obtain n row where x: "x = (n, row)" by (cases x)
  note a = assms(1)[unfolded x]
  have row: "row = merged_row (map_of (read_weekday_master fs path) tb) tb tot now"
    by (rule apply_weekday_update_Inr(1)[OF a])
  show ?thesis
    using read_after_update[OF a assms(2), of k] True
    by (auto simp: bucket_sum_def norm_row_def persist_def row merged_row_def q6_0 split: option.splits)
qed

lemma run_sum_grid:
  "run_updates atomic now ts fs u = (Inr c, fs') \<Longrightarrow> stripped ts \<Longrightarrow>
     hits ts p k \<ge> 1 \<or> q6 (bucket_sum fs p k) = bucket_sum fs p k \<Longrightarrow>
     q6 (bucket_sum fs' p k) = bucket_sum fs' p k"
proof (induction atomic now ts fs u rule: run_updates.induct)
  case (1 atomic now fs updated)
  then show ?case by (simp add: hits_def)
next
  case (2 atomic now path tb tot rest fs updated)
  obtain r fs1 where a: "apply_weekday_update fs path tb tot atomic now = (r, fs1)"
    by (cases "apply_weekday_update fs path tb tot atomic now")
  with "2.prems" obtain x where r: "r = Inr x" by (cases r) auto
  from "2.prems" a r have run: "run_updates atomic now rest fs1 (updated + 1) = (Inr c, fs')" by simp
  from "2.prems"(2) have s: "strip tb = tb" "stripped rest" by (auto simp: stripped_def)
  have "hits rest p k \<ge> 1 \<or> q6 (bucket_sum fs1 p k) = bucket_sum fs1 p k"
    using "2.prems"(3) update_bucket_sum[OF a[unfolded r] s(1), of p k]
    by (auto simp: hits_def q6_q6 split: if_splits)
  then show ?case
    by (rule "2.IH"[OF a[symmetric, unfolded r] refl run s(2)])
qed

lemma run_sum_nohit:
  "run_updates atomic now ts fs u = (Inr c, fs') \<Longrightarrow> stripped ts \<Longrightarrow>
     hits ts p k = 0 \<Longrightarrow> q6 (bucket_sum fs p k) = bucket_sum fs p k \<Longrightarrow>
     bucket_sum fs' p k = bucket_sum fs p k"
proof (induction atomic now ts fs u rule: run_updates.induct)
  case (1 atomic now fs updated)
  then show ?case by simp
next
  case (2 atomic now path tb tot rest fs updated)
  obtain r fs1 where a: "apply_weekday_update fs path tb tot atomic now = (r, fs1)"
    by (cases "apply_weekday_update fs path tb tot atomic now")
  with "2.prems" obtain x where r: "r = Inr x" by (cases r) auto
  from "2.prems" a r have run: "run_updates atomic now rest fs1 (updated + 1) = (Inr c, fs')" by simp
  from "2.prems"(2) have s: "strip tb = tb" "stripped rest" by (auto simp: stripped_def)
  from "2.prems"(3) have h: "\<not> (p = path \<and> k = tb)" "hits rest p k = 0"
    by (auto simp: hits_def split: if_splits)
  have e: "bucket_sum fs1 p k = bucket_sum fs p k"
    using update_bucket_sum[OF a[unfolded r] s(1), of p k] h(1) "2.prems"(4) by auto
  have "bucket_sum fs' p k = bucket_sum fs1 p k"
    by (rule "2.IH"[OF a[symmetric, unfolded r] refl run s(2) h(2)]) (simp add: e "2.prems"(4))
  with e show ?case by simp
qed

lemma run_sum_onehit:
  "run_updates atomic now ts fs u = (Inr c, fs') \<Longrightarrow> stripped ts \<Longrightarrow>
     hits ts p k = 1 \<Longrightarrow> (p, k, tot) \<in> set ts \<Longrightarrow> q6 (bucket_sum fs p k) = bucket_sum fs p k \<Longrightarrow>
     bucket_sum fs' p k = q6 (bucket_sum fs p k + tot)"
proof (induction atomic now ts fs u rule: run_updates.induct)
  case (1 atomic now fs updated)
  then show ?case by simp
next
  case (2 atomic now path tb tot' rest fs updated)
  obtain r fs1 where a: "apply_weekday_update fs path tb tot' atomic now = (r, fs1)"
    by (cases "apply_weekday_update fs path tb tot' atomic now")
  with "2.prems" obtain x where r: "r = Inr x" by (cases r) auto
  from "2.prems" a r have run: "run_updates atomic now rest fs1 (updated + 1) = (Inr c, fs')" by simp
  from "2.prems"(2) have s: "strip tb = tb" "stripped rest" by (auto simp: stripped_def)
  note ub = update_bucket_sum[OF a[unfolded r] s(1), of p k]
  show ?case
  proof (cases "p = path \<and> k = tb")
    case True
    with "2.prems"(3) have h0: "hits rest p k = 0" by (auto simp: hits_def)
    have "(p, k, tot) \<notin> set rest"
    proof
      assume "(p, k, tot) \<in> set rest"
      then have "filter (\<lambda>(p', k', _). p' = p \<and> k' = k) rest \<noteq> []"
        by (auto simp: filter_empty_conv)
      with h0 show False by (simp add: hits_def)
    qed
    with "2.prems"(4) True have t: "tot' = tot" by auto
    from ub True t have e: "bucket_sum fs1 p k = q6 (bucket_sum fs p k + tot)" by simp
    have "bucket_sum fs' p k = bucket_sum fs1 p k"
      by (rule run_sum_nohit[OF run s(2) h0]) (simp add: e q6_q6)
    with e show ?thesis by simp
  next
    case False
    with "2.prems"(3,4) have h1: "hits rest p k = 1" "(p, k, tot) \<in> set rest"
      by (auto simp: hits_def)
    from ub False "2.prems"(5) have e: "bucket_sum fs1 p k = bucket_sum fs p k" by auto
    have "bucket_sum fs' p k = q6 (bucket_sum fs1 p k + tot)"
      by (rule "2.IH"[OF a[symmetric, unfolded r] refl run s(2) h1]) (simp add: e "2.prems"(5))
    with e show ?thesis by simp
  qed
qed












lemma run_updates_ledger:
  "run_updates atomic now ts fs u = (Inr c, fs') \<Longrightarrow> ledger_files fs' = ledger_files fs"
proof (induction atomic now ts fs u rule: run_updates.induct)
  case (1 atomic now fs updated)
  then show ?case by simp
next
  case (2 atomic now path tb tot rest fs updated)
  obtain r fs1 where a: "apply_weekday_update fs path tb tot atomic now = (r, fs1)"
    by (cases "apply_weekday_update fs path tb tot atomic now")
  with "2.prems" obtain n row where r: "r = Inr (n, row)" by (cases r) auto
  from "2.prems" a r have run: "run_updates atomic now rest fs1 (updated + 1) = (Inr c, fs')" by simp
  from "2.IH"[OF a[symmetric, unfolded r] refl run] apply_weekday_update_Inr(4)[OF a[unfolded r]]
  show ?case by simp
qed

text \<open>
  Claim C8. A streaming pass that is enabled and returns makes exactly the merges of
  \<open>pass_targets\<close>: its count is their number, and the count of every bucket of every
  file grows by the number of merges addressed to it. Of the primary offsets these are
  all the totals read when the weekday of the date is one of mon to fri, and none
  otherwise; of the pair offsets they are all the selected pair totals, whatever the
  weekday.
\<close>

theorem weekday_filter:
  "(ENABLE_STREAMING config \<longrightarrow> stripped (pass_targets config src d indices expiry_codes) \<longrightarrow>
    stream_update_for_latest_minute config src d indices expiry_codes now fs = (Inr c, fs') \<longrightarrow>
      c = length (pass_targets config src d indices expiry_codes) \<and>
      bucket_n fs' p k = bucket_n fs p k + int (hits (pass_targets config src d indices expiry_codes) p k))
   \<and> (weekday_code_from_date d \<notin> set [''mon'', ''tue'', ''wed'', ''thu'', ''fri''] \<longrightarrow>
         base_targets config src d expiry_codes index = [])
   \<and> (weekday_code_from_date d \<in> set [''mon'', ''tue'', ''wed'', ''thu'', ''fri''] \<longrightarrow>
         base_targets config src d expiry_codes index =
           map (target_of config d index)
             (build_totals_split_for_index_day src index expiry_codes BASE_OFFSETS))
   \<and> pair_targets config src d expiry_codes index =
         map (target_of config d index)
           (select_pairs (build_totals_split_for_index_day src index expiry_codes PAIR_OFFSETS)
                         (build_totals_split_for_index_day src index expiry_codes BASE_OFFSETS))"
proof (intro conjI impI)
  assume e: "ENABLE_STREAMING config" and s: "stripped (pass_targets config src d indices expiry_codes)"
    and r: "stream_update_for_latest_minute config src d indices expiry_codes now fs = (Inr c, fs')"
  note run = r[unfolded stream_update_run[OF e]]
  show "c = length (pass_targets config src d indices expiry_codes)"
    using run_updates_count[OF run] by simp
  show "bucket_n fs' p k = bucket_n fs p k + int (hits (pass_targets config src d indices expiry_codes) p k)"
    by (rule run_bucket_n[OF run s])
qed (simp_all add: base_targets_def pair_targets_def trading_weekdays_def)

text \<open>
  Claim C7. The streaming pass consults no ledger and leaves the ledgers alone. A
  second pass over the same source makes the same merges as the first: the same count
  is returned, every bucket receives the same number of merges again, and a bucket
  that a pass addresses once has the total added to its stored sum a second time.
\<close>

theorem streaming_double_counts:
  "ENABLE_STREAMING config \<longrightarrow> stripped (pass_targets config src d indices expiry_codes) \<longrightarrow>
   stream_update_for_latest_minute config src d indices expiry_codes now1 fs0 = (Inr c1, fs1) \<longrightarrow>
   stream_update_for_latest_minute config src d indices expiry_codes now2 fs1 = (Inr c2, fs2) \<longrightarrow>
     c2 = c1 \<and>
     ledger_files fs2 = ledger_files fs0 \<and>
     bucket_n fs1 p k = bucket_n fs0 p k + int (hits (pass_targets config src d indices expiry_codes) p k) \<and>
     bucket_n fs2 p k = bucket_n fs1 p k + int (hits (pass_targets config src d indices expiry_codes) p k) \<and>
     (hits (pass_targets config src d indices expiry_codes) p k = 1 \<longrightarrow>
      (p, k, tot) \<in> set (pass_targets config src d indices expiry_codes) \<longrightarrow>
        bucket_sum fs2 p k = q6 (bucket_sum fs1 p k + tot) \<and>
        (q6 tot = tot \<longrightarrow> bucket_sum fs2 p k = bucket_sum fs1 p k + tot))"
proof (intro impI)
  let ?T = "pass_targets config src d indices expiry_codes"
  assume e: "ENABLE_STREAMING config" and s: "stripped ?T"
    and r1: "stream_update_for_latest_minute config src d indices expiry_codes now1 fs0 = (Inr c1, fs1)"
    and r2: "stream_update_for_latest_minute config src d indices expiry_codes now2 fs1 = (Inr c2, fs2)"
  note run1 = r1[unfolded stream_update_run[OF e]]
  note run2 = r2[unfolded stream_update_run[OF e]]
  have c: "c2 = c1" using run_updates_count[OF run1] run_updates_count[OF run2] by simp
  have l: "ledger_files fs2 = ledger_files fs0"
    using run_updates_ledger[OF run1] run_updates_ledger[OF run2] by simp
  have s2: "bucket_sum fs2 p k = q6 (bucket_sum fs1 p k + tot) \<and>
        (q6 tot = tot \<longrightarrow> bucket_sum fs2 p k = bucket_sum fs1 p k + tot)"
    if h: "hits ?T p k = 1" and m: "(p, k, tot) \<in> set ?T"
  proof -
    have g: "q6 (bucket_sum fs1 p k) = bucket_sum fs1 p k"
      by (rule run_sum_grid[OF run1 s]) (simp add: h)
    have "bucket_sum fs2 p k = q6 (bucket_sum fs1 p k + tot)"
      by (rule run_sum_onehit[OF run2 s h m g])
    then show ?thesis by (simp add: on_grid_add g)
  qed
  show "c2 = c1 \<and>
     ledger_files fs2 = ledger_files fs0 \<and>
     bucket_n fs1 p k = bucket_n fs0 p k + int (hits ?T p k) \<and>
     bucket_n fs2 p k = bucket_n fs1 p k + int (hits ?T p k) \<and>
     (hits ?T p k = 1 \<longrightarrow> (p, k, tot) \<in> set ?T \<longrightarrow>
        bucket_sum fs2 p k = q6 (bucket_sum fs1 p k + tot) \<and>
        (q6 tot = tot \<longrightarrow> bucket_sum fs2 p k = bucket_sum fs1 p k + tot))"
    using c l run_bucket_n[OF run1 s] run_bucket_n[OF run2 s] s2 by blast
qed







lemma os_replace_no_broken:
  assumes "os_replace fs src dst = (r, fs')" and "no_broken fs"
  shows "(r = Inr () \<or> r = Inl PermissionError) \<and> no_broken fs'"
  using assms
  by (cases "replace_faults fs")
     (auto simp: os_replace_def Let_def no_broken_def split: replace_outcome.splits)

lemma replace_loop_no_broken:
  "replace_loop fs tmp dst as = (res, fs') \<Longrightarrow> no_broken fs \<Longrightarrow>
     (\<forall>e. res \<noteq> Failed e) \<and> no_broken fs'"
proof (induction as arbitrary: fs)
  case Nil
  then show ?case by auto
next
  case (Cons a as)
  obtain r fs1 where r: "os_replace fs tmp dst = (r, fs1)" by (cases "os_replace fs tmp dst")
  note o = os_replace_no_broken[OF r Cons.prems(2)]
  show ?case
  proof (cases "r = Inr ()")
    case True
    with Cons.prems r o show ?thesis by auto
  next
    case False
    with o have e: "r = Inl PermissionError" by auto
    with r Cons.prems
    have l: "replace_loop (sleep fs1 (2 / 10 + 2 / 10 * of_nat a)) tmp dst as = (res, fs')" by simp
    have "no_broken (sleep fs1 (2 / 10 + 2 / 10 * of_nat a))"
      using o by (simp add: no_broken_def sleep_def)
    from Cons.IH[OF l this] show ?thesis .
  qed
qed

lemma write_to_file_no_broken:
  assumes "no_broken fs"
  shows "\<exists>fs'. write_to_file fs fp rows = (Inr (), fs') \<and> no_broken fs'"
  using assms by (simp add: write_to_file_def no_broken_def)

lemma write_via_tmp_no_broken:
  assumes "no_broken fs"
  shows "\<exists>fs'. write_via_tmp fs tmp path rows = (Inr (), fs') \<and> no_broken fs'"
proof -
  from write_to_file_no_broken[OF assms, of tmp rows]
  obtain fs2 where w: "write_to_file fs tmp rows = (Inr (), fs2)" and n2: "no_broken fs2" by blast
  obtain res fs3 where l: "replace_loop fs2 tmp (Named path) [0..<5] = (res, fs3)"
    by (cases "replace_loop fs2 tmp (Named path) [0..<5]")
  note rl = replace_loop_no_broken[OF l n2]
  from write_to_file_no_broken[of fs3 "Named path" rows] rl
  obtain fs4 where w4: "write_to_file fs3 (Named path) rows = (Inr (), fs4)" and n4: "no_broken fs4"
    by blast
  show ?thesis
    using rl w l w4 n4 by (cases res) (auto simp: write_via_tmp_def)
qed

lemma remove_tmp_no_broken: "no_broken fs \<Longrightarrow> no_broken (remove_tmp fs tmp)"
  by (auto simp: remove_tmp_def no_broken_def Let_def split: option.splits)

lemma write_weekday_master_no_broken:
  assumes "no_broken fs" and "dirname path \<noteq> []"
  shows "\<exists>fs'. write_weekday_master fs path rows atomic = (Inr (), fs') \<and> no_broken fs'"
proof -
  define fs0 where "fs0 = fs\<lparr>makedirs_faults := tl (makedirs_faults fs),
      io_log := io_log fs @ [EvMakedirs (dirname path) None]\<rparr>"
  have e: "ensure_dir fs path = (Inr (), fs0)" and n0: "no_broken fs0"
    using assms by (simp_all add: ensure_dir_def Let_def next_fault_def no_broken_def fs0_def)
  show ?thesis
  proof (cases atomic)
    case False
    with e write_to_file_no_broken[OF n0, of "Named path" rows] show ?thesis
      by (simp add: write_weekday_master_def)
  next
    case True
    define tmp where "tmp = Temp (dirname path) (tmp_seq fs0)"
    obtain fs1 where m: "mkstemp fs0 (dirname path) = (Inr tmp, fs1)" and n1: "no_broken fs1"
      using n0 by (simp add: mkstemp_def Let_def next_fault_def no_broken_def tmp_def)
    from write_via_tmp_no_broken[OF n1, of tmp path rows]
    obtain fs4 where v: "write_via_tmp fs1 tmp path rows = (Inr (), fs4)" and n4: "no_broken fs4"
      by blast
    from e True m v remove_tmp_no_broken[OF n4, of tmp] show ?thesis
      by (simp add: write_weekday_master_def)
  qed
qed

lemma apply_weekday_update_no_broken:
  assumes "no_broken fs" and "dirname path \<noteq> []"
  shows "\<exists>x fs'. apply_weekday_update fs path tb tot atomic now = (Inr x, fs') \<and> no_broken fs'"
proof -
  let ?rows = "AList.update tb (merged_row (map_of (read_weekday_master fs path) tb) tb tot now)
                 (read_weekday_master fs path)"
  from write_weekday_master_no_broken[OF assms, of ?rows atomic]
  obtain fs' where "write_weekday_master fs path ?rows atomic = (Inr (), fs')" "no_broken fs'" by blast
  then show ?thesis by (simp add: apply_weekday_update_def Let_def)
qed

lemma run_updates_no_broken:
  "no_broken fs \<Longrightarrow> in_dirs ts \<Longrightarrow>
     \<exists>fs'. run_updates atomic now ts fs u = (Inr (u + length ts), fs') \<and> no_broken fs'"
proof (induction ts arbitrary: fs u)
  case Nil
  then show ?case by simp
next
  case (Cons t ts)
  obtain path tb tot where t: "t = (path, tb, tot)" by (cases t)
  from Cons.prems(2) t have d: "dirname path \<noteq> []" "in_dirs ts" by (simp_all add: in_dirs_def)
  from apply_weekday_update_no_broken[OF Cons.prems(1) d(1), of tb tot atomic now]
  obtain x fs1 where a: "apply_weekday_update fs path tb tot atomic now = (Inr x, fs1)" and n: "no_broken fs1"
    by blast
  from Cons.IH[OF n d(2), of "u + 1"] obtain fs' where
    "run_updates atomic now ts fs1 (u + 1) = (Inr (u + 1 + length ts), fs')" "no_broken fs'" by blast
  with a show ?case by (simp add: t)
qed

lemma stream_update_no_broken:
  assumes "ENABLE_STREAMING config" and "no_broken fs"
    and "in_dirs (pass_targets config src d indices expiry_codes)"
  shows "stream_update_for_latest_minute config src d indices expiry_codes now fs =
           (Inr (length (pass_targets config src d indices expiry_codes)),
            snd (stream_update_for_latest_minute config src d indices expiry_codes now fs))
         \<and> no_broken (snd (stream_update_for_latest_minute config src d indices expiry_codes now fs))"
proof -
  from run_updates_no_broken[OF assms(2,3), of "ATOMIC_CSV_WRITES config" now 0]
  show ?thesis by (auto simp: stream_update_run[OF assms(1)])
qed






lemma no_broken_empty_fs: "no_broken empty_fs"
  by (simp add: no_broken_def empty_fs_def)

theorem weekday_filter_witness:
  "ENABLE_STREAMING example_config
   \<and> stripped (pass_targets example_config example_source saturday [''NIFTY 50''] [''this_week''])
   \<and> weekday_code_from_date saturday = ''sat''
   \<and> stream_example saturday empty_fs = (Inr 1, snd (stream_example saturday empty_fs))
   \<and> base_targets example_config example_source saturday [''this_week''] ''NIFTY 50'' = []
   \<and> pair_targets example_config example_source saturday [''this_week''] ''NIFTY 50'' =
        [(''data_adv/weekday_masters/NIFTY 50/this_week/atm_p1m1/sat.csv'', ''10:15'', 10)]
   \<and> bucket_n (snd (stream_example saturday empty_fs))
        ''data_adv/weekday_masters/NIFTY 50/this_week/atm_p1m1/sat.csv'' ''10:15'' = 1
   \<and> bucket_n (snd (stream_example saturday empty_fs))
        ''data_adv/weekday_masters/NIFTY 50/this_week/atm_p1/sat.csv'' ''10:15'' = 0"
proof -
  let ?T = "pass_targets example_config example_source saturday [''NIFTY 50''] [''this_week'']"
  let ?pp = "''data_adv/weekday_masters/NIFTY 50/this_week/atm_p1m1/sat.csv''"
  let ?pb = "''data_adv/weekday_masters/NIFTY 50/this_week/atm_p1/sat.csv''"
  let ?fs' = "snd (stream_example saturday empty_fs)"
  have e: "ENABLE_STREAMING example_config" by (simp add: example_config_def)
  have s: "stripped ?T" by code_simp
  have w: "weekday_code_from_date saturday = ''sat''" by code_simp
  have T: "?T = [(?pp, ''10:15'', 10)]" by code_simp
  have dirs: "in_dirs ?T" by code_simp
  have r: "stream_update_for_latest_minute example_config example_source saturday [''NIFTY 50'']
             [''this_week''] ''2025-08-18T04:45:00Z'' empty_fs = (Inr 1, ?fs')"
    using stream_update_no_broken[OF e no_broken_empty_fs dirs, of "''2025-08-18T04:45:00Z''"]
    by (simp add: T stream_example_def)
  have n0: "bucket_n empty_fs ?pp ''10:15'' = 0" "bucket_n empty_fs ?pb ''10:15'' = 0" by code_simp+
  have ns: "weekday_code_from_date saturday \<notin> set [''mon'', ''tue'', ''wed'', ''thu'', ''fri'']"
    by (simp add: w)
  note wf = weekday_filter[of example_config example_source saturday "[''NIFTY 50'']" "[''this_week'']"
      "''2025-08-18T04:45:00Z''" empty_fs 1 ?fs' _ _ "''NIFTY 50''"]
  have b: "base_targets example_config example_source saturday [''this_week''] ''NIFTY 50'' = []"
    using wf[of ?pp "''10:15''"] ns by blast
  have p: "pair_targets example_config example_source saturday [''this_week''] ''NIFTY 50'' = [(?pp, ''10:15'', 10)]"
    using T b by (simp add: pass_targets_def)
  have h: "hits ?T ?pp ''10:15'' = 1" "hits ?T ?pb ''10:15'' = 0" by (simp_all add: T hits_def)
  have n1: "bucket_n ?fs' ?pp ''10:15'' = 1"
    using wf[of ?pp "''10:15''"] e s r n0 h by simp
  have n2: "bucket_n ?fs' ?pb ''10:15'' = 0"
    using wf[of ?pb "''10:15''"] e s r n0 h by simp
  from e s w r b p n1 n2 show ?thesis by (simp add: stream_example_def)
qed

theorem streaming_double_counts_witness:
  "ENABLE_STREAMING example_config
   \<and> stripped (pass_targets example_config example_source monday [''NIFTY 50''] [''this_week''])
   \<and> stream_example monday empty_fs = (Inr 3, monday_fs1)
   \<and> stream_example monday monday_fs1 = (Inr 3, monday_fs2)
   \<and> hits (pass_targets example_config example_source monday [''NIFTY 50''] [''this_week''])
        ''data_adv/weekday_masters/NIFTY 50/this_week/atm_p1/mon.csv'' ''10:15'' = 1
   \<and> bucket_n monday_fs1 ''data_adv/weekday_masters/NIFTY 50/this_week/atm_p1/mon.csv'' ''10:15'' = 1
   \<and> bucket_n monday_fs2 ''data_adv/weekday_masters/NIFTY 50/this_week/atm_p1/mon.csv'' ''10:15'' = 2
   \<and> bucket_sum monday_fs2 ''data_adv/weekday_masters/NIFTY 50/this_week/atm_p1/mon.csv'' ''10:15'' =
       bucket_sum monday_fs1 ''data_adv/weekday_masters/NIFTY 50/this_week/atm_p1/mon.csv'' ''10:15'' + 25 / 2"
proof -
  let ?T = "pass_targets example_config example_source monday [''NIFTY 50''] [''this_week'']"
  let ?p = "''data_adv/weekday_masters/NIFTY 50/this_week/atm_p1/mon.csv''"
  have e: "ENABLE_STREAMING example_config" by (simp add: example_config_def)
  have s: "stripped ?T" by code_simp
  have len: "length ?T = 3" by code_simp
  have dirs: "in_dirs ?T" by code_simp
  note sn1 = stream_update_no_broken[OF e no_broken_empty_fs dirs, of "''2025-08-18T04:45:00Z''"]
  have r1: "stream_example monday empty_fs = (Inr 3, monday_fs1)"
    using sn1 by (simp add: len stream_example_def monday_fs1_def)
  have nb1: "no_broken monday_fs1"
    using sn1 by (simp add: stream_example_def monday_fs1_def)
  have r2: "stream_example monday monday_fs1 = (Inr 3, monday_fs2)"
    using stream_update_no_broken[OF e nb1 dirs, of "''2025-08-18T04:45:00Z''"]
    by (simp add: len stream_example_def monday_fs2_def)
  have h: "hits ?T ?p ''10:15'' = 1" by code_simp
  have m: "(?p, ''10:15'', 25 / 2) \<in> set ?T" by code_simp
  have n0: "bucket_n empty_fs ?p ''10:15'' = 0" by code_simp
  have g: "q6 (25 / 2) = 25 / 2" by code_simp
  from streaming_double_counts[of example_config example_source monday "[''NIFTY 50'']" "[''this_week'']"
      "''2025-08-18T04:45:00Z''" empty_fs 3 monday_fs1 "''2025-08-18T04:45:00Z''" 3 monday_fs2
      ?p "''10:15''" "25 / 2"]
    e s r1 r2 h m n0 g
  have "bucket_n monday_fs1 ?p ''10:15'' = 1 \<and> bucket_n monday_fs2 ?p ''10:15'' = 2 \<and>
        bucket_sum monday_fs2 ?p ''10:15'' = bucket_sum monday_fs1 ?p ''10:15'' + 25 / 2"
    by (simp add: stream_example_def)
  with e s r1 r2 h show ?thesis by simp
qed


lemma digit_cases: "k < 10 \<Longrightarrow> k \<in> {0, 1, 2, 3, 4, 5, 6, 7, 8, 9::nat}"
  by auto

lemma digit_char_val: "k < 10 \<Longrightarrow> digit_val (digit_char k) = Some (int k)"
  by (drule digit_cases) (auto simp: digit_val_def digit_char_def less_eq_char_def)

lemma digit_char_digit: "k < 10 \<Longrightarrow> is_digit (digit_char k)"
  by (drule digit_cases) (auto simp: is_digit_def digit_char_def less_eq_char_def)

declare decimal.simps [simp del]

lemma decimal_digits: "list_all is_digit (decimal n)"
proof (induction n rule: decimal.induct)
  case (1 n)
  show ?case
  proof (cases "n < 10")
    case True
    then have "nat n < 10" by simp
    with True show ?thesis by (subst decimal.simps) (simp add: digit_char_digit)
  next
    case False
    have "nat (n mod 10) < 10" by simp
    moreover have "list_all is_digit (decimal (n div 10))"
      using "1.IH"[OF False] by simp
    ultimately show ?thesis using False
      by (subst decimal.simps) (simp add: digit_char_digit)
  qed
qed

lemma decimal_nonempty: "decimal n \<noteq> []"
  by (subst decimal.simps) simp

lemma digits_val_append:
  "digits_val (xs @ ys) acc = (case digits_val xs acc of None \<Rightarrow> None | Some a \<Rightarrow> digits_val ys a)"
  by (induction xs arbitrary: acc) (auto split: option.splits)

lemma digits_val_decimal: "0 \<le> n \<Longrightarrow> digits_val (decimal n) 0 = Some n"
proof (induction n rule: decimal.induct)
  case (1 n)
  show ?case
  proof (cases "n < 10")
    case True
    with "1.prems" have "nat n < 10" by simp
    from digit_char_val[OF this] True "1.prems" show ?thesis
      by (subst decimal.simps) simp
  next
    case False
    have d: "digit_val (digit_char (nat (n mod 10))) = Some (n mod 10)"
      using digit_char_val[of "nat (n mod 10)"] by simp
    have "digits_val (decimal (n div 10)) 0 = Some (n div 10)"
      using "1.IH"[OF False] "1.prems" by simp
    with d False show ?thesis
      by (subst decimal.simps) (simp add: digits_val_append)
  qed
qed

lemma digits_val_zeros: "digits_val (replicate k CHR ''0'' @ xs) 0 = digits_val xs 0"
  by (induction k) (simp_all add: digit_val_def less_eq_char_def)

lemma length_decimal: "0 \<le> n \<Longrightarrow> n < 10 ^ k \<Longrightarrow> 0 < k \<Longrightarrow> length (decimal n) \<le> k"
proof (induction n arbitrary: k rule: decimal.induct)
  case (1 n)
  show ?case
  proof (cases "n < 10")
    case True
    with "1.prems" show ?thesis by (subst decimal.simps) simp
  next
    case False
    from "1.prems" obtain j where k: "k = Suc j" by (cases k) auto
    with False "1.prems" have j: "0 < j" by (cases j) auto
    from k "1.prems" have "n div 10 < 10 ^ j" by simp
    from "1.IH"[OF False _ this j] "1.prems" have "length (decimal (n div 10)) \<le> j" by simp
    with False k show ?thesis by (subst decimal.simps) simp
  qed
qed

lemma digit_not_special:
  "is_digit c \<Longrightarrow> c \<noteq> CHR ''-'' \<and> c \<noteq> CHR ''+'' \<and> c \<noteq> CHR ''.'' \<and> \<not> is_space c"
  by (auto simp: is_digit_def less_eq_char_def is_space_def)

lemma zpad_digits: "list_all is_digit (zpad w n)"
  using decimal_digits[of n] by (auto simp: zpad_def list_all_iff is_digit_def less_eq_char_def)

lemma zpad_nonempty: "zpad w n \<noteq> []"
  by (simp add: zpad_def decimal_nonempty)

lemma length_zpad: "0 \<le> n \<Longrightarrow> n < 10 ^ w \<Longrightarrow> 0 < w \<Longrightarrow> length (zpad w n) = w"
  using length_decimal[of n w] by (simp add: zpad_def)

lemma digits_val_zpad: "0 \<le> n \<Longrightarrow> digits_val (zpad w n) 0 = Some n"
  by (simp add: zpad_def digits_val_zeros digits_val_decimal)

lemma strip_id:
  assumes "s \<noteq> []" "\<not> is_space (hd s)" "\<not> is_space (last s)"
  shows "strip s = s"
proof -
  from assms have a: "dropWhile is_space s = s" by (cases s) auto
  from assms have "dropWhile is_space (rev s) = rev s" by (cases "rev s") (auto simp: hd_rev)
  with a show ?thesis by (simp add: strip_def)
qed

lemma isoformat_stripped: "strip (isoformat d) = isoformat d \<and> isoformat d \<noteq> []"
proof -
  obtain c cs where y: "zpad 4 (year d) = c # cs" using zpad_nonempty[of 4 "year d"]
    by (cases "zpad 4 (year d)") auto
  have "is_digit c" using zpad_digits[of 4 "year d"] y by simp
  then have h: "\<not> is_space (hd (isoformat d))" using digit_not_special y by (simp add: isoformat_def)
  have "last (isoformat d) = last (zpad 2 (day d))"
    using zpad_nonempty[of 2 "day d"] by (simp add: isoformat_def)
  moreover have "is_digit (last (zpad 2 (day d)))"
    using zpad_digits[of 2 "day d"] zpad_nonempty[of 2 "day d"]
    by (metis last_in_set list_all_iff)
  ultimately have l: "\<not> is_space (last (isoformat d))" using digit_not_special by simp
  have n: "isoformat d \<noteq> []" using y by (simp add: isoformat_def)
  from strip_id[OF n h l] n show ?thesis by simp
qed


lemma update_noop:
  assumes "noop_cond cfg fs daily_csv (idx, expc, strike) day_str"
  shows "update_master_from_daily cfg fs daily_csv idx expc strike day_str =
           (Inr (master_path (weekday_root cfg) idx expc strike), fs)"
  using assms
  by (auto simp: noop_cond_def update_master_from_daily_def Let_def key_master_def)

lemma tmp_path_neq: "tmp_path_for_master p \<noteq> p"
proof (cases "p = []")
  case True
  then show ?thesis by (simp add: tmp_path_for_master_def)
next
  case False
  then have p: "p = butlast p @ [last p]" by simp
  have "length (''.'' @ last p @ ''.tmp'') \<noteq> length (last p)" by simp
  then have "''.'' @ last p @ ''.tmp'' \<noteq> last p" by metis
  then have "butlast p @ [''.'' @ last p @ ''.tmp''] \<noteq> butlast p @ [last p]" by simp
  with p show ?thesis by (simp add: tmp_path_for_master_def)
qed

lemma write_master_atomic_result:
  assumes "write_master_atomic fs p rows = (r, fs')"
  shows "bulk_ledgers fs' = bulk_ledgers fs"
    and "r = Inr () \<Longrightarrow> master_files fs' p = Some (master_records rows)"
    and "q \<noteq> p \<Longrightarrow> q \<noteq> tmp_path_for_master p \<Longrightarrow> master_files fs' q = master_files fs q"
    and "r \<noteq> Inr () \<Longrightarrow> master_files fs' p = master_files fs p"
  using assms tmp_path_neq[of p]
  by (auto simp: write_master_atomic_def Let_def split: replace_outcome.splits list.splits)

lemma in_read_ledger_append:
  assumes "strip day_str = day_str" and "day_str \<noteq> []"
  shows "day_str \<in> read_ledger (bulk_append_ledger fs lp day_str) lp"
  using assms by (auto simp: read_ledger_def bulk_append_ledger_def ledger_lines_def split: option.splits)

lemma update_after:
  assumes u: "update_master_from_daily cfg fs daily_csv idx expc strike day_str = (Inr m, fs1)"
    and l: "use_ledger cfg" and s: "strip day_str = day_str" "day_str \<noteq> []"
  shows "noop_cond cfg fs1 daily_csv (idx, expc, strike) day_str"
proof -
  let ?master = "master_path (weekday_root cfg) idx expc strike"
  let ?ledger = "ledger_path_for_master ?master"
  show ?thesis
  proof (cases "day_str \<in> read_ledger fs ?ledger")
    case True
    with u l show ?thesis by (auto simp: update_master_from_daily_def Let_def noop_cond_def key_master_def)
  next
    case False
    obtain rows updated where dl: "daily_loop (isoparse cfg) day_str (session_start cfg) (session_end cfg)
        daily_csv (load_master fs ?master) False = Inr (rows, updated)"
      using u False by (cases "daily_loop (isoparse cfg) day_str (session_start cfg) (session_end cfg)
        daily_csv (load_master fs ?master) False") (auto simp: update_master_from_daily_def Let_def)
    show ?thesis
    proof (cases updated)
      case False
      with u dl \<open>day_str \<notin> read_ledger fs ?ledger\<close> have "fs1 = fs"
        by (auto simp: update_master_from_daily_def Let_def)
      with dl False show ?thesis by (auto simp: noop_cond_def key_master_def)
    next
      case True
      obtain r fs' where w: "write_master_atomic fs ?master rows = (r, fs')"
        by (cases "write_master_atomic fs ?master rows")
      with u dl True \<open>day_str \<notin> read_ledger fs ?ledger\<close> l
      have "fs1 = bulk_append_ledger fs' ?ledger day_str"
        by (auto simp: update_master_from_daily_def Let_def split: sum.splits)
      with in_read_ledger_append[OF s] l show ?thesis
        by (auto simp: noop_cond_def key_master_def)
    qed
  qed
qed

lemma master_path_inject:
  "master_path wroot i e s = master_path wroot i' e' s' \<longleftrightarrow> (i, e, s) = (i', e', s')"
  by (auto simp: master_path_def)

lemma ledger_path_inject:
  "ledger_path_for_master (master_path wroot i e s) = ledger_path_for_master (master_path wroot i' e' s')
     \<longleftrightarrow> (i, e, s) = (i', e', s')"
  by (auto simp: master_path_def ledger_path_for_master_def butlast_append)

lemma tmp_path_not_master:
  "tmp_path_for_master (master_path wroot i' e' s') \<noteq> master_path wroot i e s"
  by (auto simp: master_path_def tmp_path_for_master_def butlast_append)

lemma update_frame:
  assumes u: "update_master_from_daily cfg fs daily_csv i' e' s' day_str = (r, fs')"
    and k: "(i', e', s') \<noteq> (i, e, s)"
  shows "master_files fs' (master_path (weekday_root cfg) i e s) = master_files fs (master_path (weekday_root cfg) i e s)"
    and "bulk_ledgers fs' (ledger_path_for_master (master_path (weekday_root cfg) i e s)) =
         bulk_ledgers fs (ledger_path_for_master (master_path (weekday_root cfg) i e s))"
proof -
  let ?m' = "master_path (weekday_root cfg) i' e' s'"
  let ?m = "master_path (weekday_root cfg) i e s"
  have ne: "?m \<noteq> ?m'" "?m \<noteq> tmp_path_for_master ?m'"
    "ledger_path_for_master ?m \<noteq> ledger_path_for_master ?m'"
    using k tmp_path_not_master[of "weekday_root cfg" i' e' s' i e s]
    by (auto simp: master_path_inject ledger_path_inject)
  have "master_files fs' ?m = master_files fs ?m \<and>
        bulk_ledgers fs' (ledger_path_for_master ?m) = bulk_ledgers fs (ledger_path_for_master ?m)"
  proof (cases "use_ledger cfg \<and> day_str \<in> read_ledger fs (ledger_path_for_master ?m')")
    case True
    with u show ?thesis by (auto simp: update_master_from_daily_def Let_def)
  next
    case False
    show ?thesis
    proof (cases "daily_loop (isoparse cfg) day_str (session_start cfg) (session_end cfg)
        daily_csv (load_master fs ?m') False")
      case (Inl e)
      with u False show ?thesis by (auto simp: update_master_from_daily_def Let_def)
    next
      case (Inr ru)
      obtain rows updated where ru: "ru = (rows, updated)" by (cases ru)
      obtain r1 fs1 where w: "write_master_atomic fs ?m' rows = (r1, fs1)"
        by (cases "write_master_atomic fs ?m' rows")
      note wr = write_master_atomic_result[OF w]
      from u False Inr ru w wr(1) wr(3)[OF ne(1) ne(2)] ne(3) show ?thesis
        by (auto simp: update_master_from_daily_def Let_def bulk_append_ledger_def
            split: sum.splits if_splits)
    qed
  qed
  then show "master_files fs' ?m = master_files fs ?m"
    and "bulk_ledgers fs' (ledger_path_for_master ?m) = bulk_ledgers fs (ledger_path_for_master ?m)"
    by simp_all
qed

lemma noop_cond_cong:
  assumes "master_files fs' (key_master cfg k) = master_files fs (key_master cfg k)"
    and "bulk_ledgers fs' (ledger_path_for_master (key_master cfg k)) =
         bulk_ledgers fs (ledger_path_for_master (key_master cfg k))"
  shows "noop_cond cfg fs' daily_csv k day_str = noop_cond cfg fs daily_csv k day_str"
  using assms by (simp add: noop_cond_def read_ledger_def load_master_def)

lemma run_frame:
  "bulk_loop cfg day_str found fs acc = (r, fs') \<Longrightarrow> k \<notin> fst ` set found \<Longrightarrow>
     noop_cond cfg fs' daily_csv k day_str = noop_cond cfg fs daily_csv k day_str"
proof (induction cfg day_str found fs acc rule: bulk_loop.induct)
  case (1 cfg day_str fs updated_paths)
  then show ?case by simp
next
  case (2 cfg day_str idx expc strike d found fs updated_paths)
  obtain r1 fs1 where u: "update_master_from_daily cfg fs d idx expc strike day_str = (r1, fs1)"
    by (cases "update_master_from_daily cfg fs d idx expc strike day_str")
  obtain i e s where k: "k = (i, e, s)" by (cases k)
  from "2.prems"(2) k have ne: "(idx, expc, strike) \<noteq> (i, e, s)" by auto
  have c1: "noop_cond cfg fs1 daily_csv k day_str = noop_cond cfg fs daily_csv k day_str"
    using update_frame[OF u ne] by (intro noop_cond_cong) (simp_all add: k key_master_def)
  show ?case
  proof (cases r1)
    case (Inl e)
    with "2.prems"(1) u c1 show ?thesis by simp
  next
    case (Inr mp)
    with "2.prems"(1) u have run: "bulk_loop cfg day_str found fs1 (updated_paths @ [mp]) = (r, fs')"
      by simp
    from "2.IH"[OF u[symmetric, unfolded Inr] refl run] "2.prems"(2) c1 show ?thesis by simp
  qed
qed

lemma run_noop:
  "\<forall>(k, d) \<in> set found. noop_cond cfg fs d k day_str \<Longrightarrow>
     bulk_loop cfg day_str found fs acc = (Inr (acc @ map (key_master cfg \<circ> fst) found), fs)"
proof (induction found arbitrary: acc)
  case Nil
  show ?case by simp
next
  case (Cons f found)
  obtain idx expc strike d where f: "f = ((idx, expc, strike), d)" by (cases f) auto
  from Cons.prems f have "noop_cond cfg fs d (idx, expc, strike) day_str" by auto
  from update_noop[OF this] Cons.IH[of "acc @ [master_path (weekday_root cfg) idx expc strike]"] Cons.prems
  show ?case by (simp add: f key_master_def)
qed

lemma run_after:
  "bulk_loop cfg day_str found fs acc = (Inr paths, fs1) \<Longrightarrow> distinct (map fst found) \<Longrightarrow>
   use_ledger cfg \<Longrightarrow> strip day_str = day_str \<Longrightarrow> day_str \<noteq> [] \<Longrightarrow>
     (\<forall>(k, d) \<in> set found. noop_cond cfg fs1 d k day_str)"
proof (induction cfg day_str found fs acc rule: bulk_loop.induct)
  case (1 cfg day_str fs updated_paths)
  then show ?case by simp
next
  case (2 cfg day_str idx expc strike d found fs updated_paths)
  obtain r1 fs' where u: "update_master_from_daily cfg fs d idx expc strike day_str = (r1, fs')"
    by (cases "update_master_from_daily cfg fs d idx expc strike day_str")
  with "2.prems"(1) obtain mp where r1: "r1 = Inr mp" by (cases r1) auto
  from "2.prems"(1) u r1 have run: "bulk_loop cfg day_str found fs' (updated_paths @ [mp]) = (Inr paths, fs1)"
    by simp
  from "2.prems"(2) have dist: "distinct (map fst found)" "(idx, expc, strike) \<notin> fst ` set found" by auto
  note ih = "2.IH"[OF u[symmetric, unfolded r1] refl run dist(1) "2.prems"(3-5)]
  have "noop_cond cfg fs' d (idx, expc, strike) day_str"
    by (rule update_after[OF u[unfolded r1] "2.prems"(3-5)])
  then have "noop_cond cfg fs1 d (idx, expc, strike) day_str"
    using run_frame[OF run dist(2)] by simp
  with ih show ?case by simp
qed

text \<open>
  Claim C3, as stated, fails when the ledger is switched off (\<^verbatim>\<open>--no-ledger\<close>): the second
  run of the same day merges the day again, and the counter of 09:15 goes from 1 to 2.
\<close>

theorem bulk_rerun_counterexample:
  "master_files (snd (bulk_run no_ledger_cfg empty_bulk_fs)) example_master =
     Some [(''09:15'', 100, 1, ''2025-08-18'')]
   \<and> master_files (snd (bulk_run no_ledger_cfg (snd (bulk_run no_ledger_cfg empty_bulk_fs)))) example_master =
     Some [(''09:15'', 100, 2, ''2025-08-18'')]"
  by code_simp

text \<open>
  Claim C3, amended. With the ledger in use and daily files of distinct index, expiry
  bucket and strike (as the scan of the directories yields them): a run of
  \<^verbatim>\<open>run_bulk_eod\<close> that returns leaves a store on which a second run for the same date
  over the same daily files returns as well and changes nothing, neither a master nor
  a ledger. A file whose ledger has the day is left untouched whatever its daily file
  holds.
\<close>

theorem bulk_rerun_idempotent:
  "(use_ledger cfg \<longrightarrow> distinct (map fst found) \<longrightarrow>
    run_bulk_eod cfg date_iso today found fs = (Inr paths, fs1) \<longrightarrow>
      (\<exists>paths'. run_bulk_eod cfg date_iso today found fs1 = (Inr paths', fs1)))
   \<and> (use_ledger cfg \<longrightarrow>
       day_str \<in> read_ledger fs0 (ledger_path_for_master (master_path (weekday_root cfg) idx expc strike)) \<longrightarrow>
         (\<exists>mp. update_master_from_daily cfg fs0 daily_csv idx expc strike day_str = (Inr mp, fs0)))"
proof (intro conjI impI)
  assume l: "use_ledger cfg" and d: "distinct (map fst found)"
    and r: "run_bulk_eod cfg date_iso today found fs = (Inr paths, fs1)"
  from r obtain dd where dd: "(if date_iso \<noteq> []
            then (case fromisoformat cfg date_iso of None \<Rightarrow> Inl ValueError | Some d \<Rightarrow> Inr d)
            else Inr today) = Inr dd"
    and b: "bulk_loop cfg (isoformat dd) found fs [] = (Inr paths, fs1)"
    by (auto simp: run_bulk_eod_def split: sum.splits)
  note s = isoformat_stripped[of dd]
  from run_after[OF b d l] s have "\<forall>(k, d) \<in> set found. noop_cond cfg fs1 d k (isoformat dd)" by simp
  from run_noop[OF this, of "[]"] dd
  show "\<exists>paths'. run_bulk_eod cfg date_iso today found fs1 = (Inr paths', fs1)"
    by (simp add: run_bulk_eod_def)
next
  assume "use_ledger cfg"
    and "day_str \<in> read_ledger fs0 (ledger_path_for_master (master_path (weekday_root cfg) idx expc strike))"
  then have "noop_cond cfg fs0 daily_csv (idx, expc, strike) day_str"
    by (simp add: noop_cond_def key_master_def)
  from update_noop[OF this]
  show "\<exists>mp. update_master_from_daily cfg fs0 daily_csv idx expc strike day_str = (Inr mp, fs0)"
    by simp
qed

theorem bulk_rerun_idempotent_witness:
  "use_ledger ledger_cfg \<and> distinct (map fst example_found)
   \<and> bulk_run ledger_cfg empty_bulk_fs = (Inr [example_master], snd (bulk_run ledger_cfg empty_bulk_fs))
   \<and> master_files (snd (bulk_run ledger_cfg empty_bulk_fs)) example_master =
        Some [(''09:15'', 100, 1, ''2025-08-18'')]
   \<and> (\<exists>paths'. bulk_run ledger_cfg (snd (bulk_run ledger_cfg empty_bulk_fs)) =
        (Inr paths', snd (bulk_run ledger_cfg empty_bulk_fs)))
   \<and> ''2025-08-18'' \<in> read_ledger recorded_bulk_fs (ledger_path_for_master example_master)
   \<and> (\<exists>mp. update_master_from_daily ledger_cfg recorded_bulk_fs (snd (hd example_found))
        ''NIFTY'' ''this_week'' ''atm'' ''2025-08-18'' = (Inr mp, recorded_bulk_fs))"
proof -
  let ?fs1 = "snd (bulk_run ledger_cfg empty_bulk_fs)"
  have l: "use_ledger ledger_cfg" by (simp add: ledger_cfg_def)
  have d: "distinct (map fst example_found)" by (simp add: example_found_def)
  have f: "fst (bulk_run ledger_cfg empty_bulk_fs) = Inr [example_master]" by code_simp
  have r: "run_bulk_eod ledger_cfg ''2025-08-18'' saturday example_found empty_bulk_fs = (Inr [example_master], ?fs1)"
    by (rule prod_eqI) (simp_all add: f[unfolded bulk_run_def] bulk_run_def)
  have c: "master_files ?fs1 example_master = Some [(''09:15'', 100, 1, ''2025-08-18'')]" by code_simp
  have m: "example_master = master_path (weekday_root ledger_cfg) ''NIFTY'' ''this_week'' ''atm''"
    by (simp add: example_master_def ledger_cfg_def)
  have i: "''2025-08-18'' \<in> read_ledger recorded_bulk_fs (ledger_path_for_master example_master)"
    by code_simp
  note t = bulk_rerun_idempotent[of ledger_cfg example_found "''2025-08-18''" saturday empty_bulk_fs
      "[example_master]" ?fs1 "''2025-08-18''" recorded_bulk_fs "''NIFTY''" "''this_week''" "''atm''"
      "snd (hd example_found)"]
  from t l d r have r2: "\<exists>paths'. run_bulk_eod ledger_cfg ''2025-08-18'' saturday example_found ?fs1 = (Inr paths', ?fs1)"
    by blast
  from t l i m have u: "\<exists>mp. update_master_from_daily ledger_cfg recorded_bulk_fs (snd (hd example_found))
        ''NIFTY'' ''this_week'' ''atm'' ''2025-08-18'' = (Inr mp, recorded_bulk_fs)"
    by simp
  from l d r c r2 i u show ?thesis by (simp add: bulk_run_def)
qed

lemma in_load_ledger_append:
  assumes "strip date_str = date_str" and "date_str \<noteq> []"
  shows "date_str \<in> load_ledger (append_ledger fs path date_str) path"
  using assms
  by (auto simp: load_ledger_def append_ledger_def Let_def ledger_lines_def split: option.splits)











end
